theory Spec2Isabelle
  imports Main "HOL-Library.Char_ord" "HOL-Library.List_Lexorder"
begin

section \<open>freddy: a JSON value model with parser and serializer (json.hpp)\<close>

text \<open>
  The development follows \<^verbatim>\<open>src/json.hpp\<close>.  Characters are bytes (\<^typ>\<open>char\<close>), a
  \<^verbatim>\<open>std::string\<close> is a \<^typ>\<open>string\<close>, compared as \<^verbatim>\<open>std::string::operator<\<close> compares:
  lexicographically, byte by byte (theories \<open>Char_ord\<close> and \<open>List_Lexorder\<close>).

  A \<^verbatim>\<open>json::number\<close> is a \<^verbatim>\<open>double\<close>.  Floating point arithmetic is not modelled: the
  type of numbers is a type variable \<open>'n\<close>, and the two conversions the code takes from
  the C++ library are parameters of the definitions that use them:
  \<^item> \<open>rd :: string \<Rightarrow> 'n\<close>, the extraction \<^verbatim>\<open>io >> d\<close> of \<^verbatim>\<open>parse_number\<close> (the stream has
    the default exception mask, so the extraction never throws; \<^verbatim>\<open>d\<close> starts as 0);
  \<^item> \<open>sh :: 'n \<Rightarrow> string\<close>, the insertion \<^verbatim>\<open>ss << *_value\<close> of \<^verbatim>\<open>number_wrapper::json\<close>.
\<close>

subsection \<open>Exceptions\<close>

text \<open>\<^verbatim>\<open>class exception\<close> carries a message; \<^verbatim>\<open>throw exception(msg)\<close> is \<open>Inl (exception msg)\<close>.\<close>

datatype exception = exception (what: string)

subsection \<open>Escaping\<close>

text \<open>\<^verbatim>\<open>escape\<close>: a backslash is written before every double quote and backslash.\<close>

fun escape :: "string \<Rightarrow> string" where
  "escape [] = []"
| "escape (c # cs) =
     (if c = CHR 0x22 \<or> c = CHR 0x5C then CHR 0x5C # c # escape cs else c # escape cs)"

text \<open>
  \<^verbatim>\<open>unescape\<close> walks the C string \<^verbatim>\<open>value.data()\<close> until it reads the byte 0: an embedded
  zero byte ends the walk as the terminator does.  After a backslash the pointer is
  advanced and the byte there is written whatever it is.  When the backslash is the last
  byte of the string, that byte is the terminator, and the increment of the loop then
  leaves the buffer: the behaviour is undefined, which is the result \<open>None\<close>.
\<close>

fun unescape :: "string \<Rightarrow> string option" where
  "unescape [] = Some []"
| "unescape (c # cs) =
     (if c = CHR 0x00 then Some []
      else if c = CHR 0x5C then
        (case cs of
           [] \<Rightarrow> None
         | d # ds \<Rightarrow> map_option ((#) d) (unescape ds))
      else map_option ((#) c) (unescape cs))"

text \<open>Printable ASCII: the bytes from space (0x20) to tilde (0x7E).\<close>

definition printable :: "char \<Rightarrow> bool" where
  "printable c \<longleftrightarrow> CHR 0x20 \<le> c \<and> c \<le> CHR 0x7E"

subsection \<open>Values\<close>

text \<open>
  \<^verbatim>\<open>enum ValueType\<close>, and the value a \<^verbatim>\<open>json::value\<close> denotes: one constructor for each
  subclass of \<^verbatim>\<open>detail::value_t\<close> (\<^verbatim>\<open>null_wrapper\<close>, \<^verbatim>\<open>bool_wrapper\<close>, \<^verbatim>\<open>number_wrapper\<close>,
  \<^verbatim>\<open>string_wrapper\<close>, \<^verbatim>\<open>array_wrapper\<close>, \<^verbatim>\<open>object_wrapper\<close>).  A \<^verbatim>\<open>json::array\<close> is a
  \<^verbatim>\<open>std::vector<value>\<close>, a list; a \<^verbatim>\<open>json::object\<close> is a \<^verbatim>\<open>std::map<string, value>\<close>, kept
  as the list of its entries in iteration order, which is the order of the keys.
  The sharing of storage between copies of a value is the subject of the last section.
\<close>

datatype ValueType = JSON_ARRAY | JSON_BOOL | JSON_NULL | JSON_NUMBER | JSON_OBJECT | JSON_STRING

datatype 'n jvalue =
    Null
  | Bool bool
  | Number 'n
  | String string
  | Array "'n jvalue list"
  | Object "(string \<times> 'n jvalue) list"

text \<open>The constructors \<^verbatim>\<open>value(double)\<close>, \<^verbatim>\<open>value(bool)\<close>, \<^verbatim>\<open>value(string const&)\<close>, \<^verbatim>\<open>value()\<close>.\<close>

definition value_of_double :: "'n \<Rightarrow> 'n jvalue" where
  "value_of_double x = Number x"

definition value_of_bool :: "bool \<Rightarrow> 'n jvalue" where
  "value_of_bool x = Bool x"

definition value_of_string :: "string \<Rightarrow> 'n jvalue" where
  "value_of_string x = String x"

definition value_of_array :: "'n jvalue list \<Rightarrow> 'n jvalue" where
  "value_of_array x = Array x"

definition value_of_object :: "(string \<times> 'n jvalue) list \<Rightarrow> 'n jvalue" where
  "value_of_object x = Object x"

definition value_null :: "'n jvalue" where
  "value_null = Null"

text \<open>\<^verbatim>\<open>value::type()\<close>: the tag stored beside the pointer by each constructor.\<close>

fun type :: "'n jvalue \<Rightarrow> ValueType" where
  "type Null = JSON_NULL"
| "type (Bool _) = JSON_BOOL"
| "type (Number _) = JSON_NUMBER"
| "type (String _) = JSON_STRING"
| "type (Array _) = JSON_ARRAY"
| "type (Object _) = JSON_OBJECT"

text \<open>
  The accessors generated by the macro \<^verbatim>\<open>JSON_IS\<close>: in the base class \<^verbatim>\<open>is_T\<close> returns
  false and \<^verbatim>\<open>get_T\<close> throws \<^verbatim>\<open>exception("invalid cast")\<close>; each wrapper overrides the pair
  of its own variant.
\<close>

definition invalid_cast :: exception where
  "invalid_cast = exception ''invalid cast''"

fun is_array :: "'n jvalue \<Rightarrow> bool" where
  "is_array (Array _) = True"
| "is_array _ = False"

fun get_array :: "'n jvalue \<Rightarrow> exception + 'n jvalue list" where
  "get_array (Array a) = Inr a"
| "get_array _ = Inl invalid_cast"

fun is_bool :: "'n jvalue \<Rightarrow> bool" where
  "is_bool (Bool _) = True"
| "is_bool _ = False"

fun get_bool :: "'n jvalue \<Rightarrow> exception + bool" where
  "get_bool (Bool b) = Inr b"
| "get_bool _ = Inl invalid_cast"

fun is_number :: "'n jvalue \<Rightarrow> bool" where
  "is_number (Number _) = True"
| "is_number _ = False"

fun get_number :: "'n jvalue \<Rightarrow> exception + 'n" where
  "get_number (Number n) = Inr n"
| "get_number _ = Inl invalid_cast"

fun is_string :: "'n jvalue \<Rightarrow> bool" where
  "is_string (String _) = True"
| "is_string _ = False"

fun get_string :: "'n jvalue \<Rightarrow> exception + string" where
  "get_string (String s) = Inr s"
| "get_string _ = Inl invalid_cast"

fun is_object :: "'n jvalue \<Rightarrow> bool" where
  "is_object (Object _) = True"
| "is_object _ = False"

fun get_object :: "'n jvalue \<Rightarrow> exception + (string \<times> 'n jvalue) list" where
  "get_object (Object m) = Inr m"
| "get_object _ = Inl invalid_cast"

fun is_null :: "'n jvalue \<Rightarrow> bool" where
  "is_null Null = True"
| "is_null _ = False"

subsection \<open>The container of an object\<close>

text \<open>
  \<^verbatim>\<open>rv[key] = v\<close> on a \<^verbatim>\<open>std::map\<close>: the entry of an equal key is overwritten, a new key is
  entered at its place in the order of the keys.
\<close>

fun map_assign :: "(string \<times> 'v) list \<Rightarrow> string \<Rightarrow> 'v \<Rightarrow> (string \<times> 'v) list" where
  "map_assign [] k v = [(k, v)]"
| "map_assign ((k', v') # m) k v =
     (if k < k' then (k, v) # (k', v') # m
      else if k = k' then (k, v) # m
      else (k', v') # map_assign m k v)"

text \<open>A list is the iteration of a \<^verbatim>\<open>std::map\<close> when its keys increase strictly.\<close>

definition is_map :: "(string \<times> 'v) list \<Rightarrow> bool" where
  "is_map m \<longleftrightarrow> sorted_wrt (<) (map fst m)"

text \<open>The container filled from empty by the assignments \<^verbatim>\<open>rv[k] = v\<close> of a list, in order.\<close>

definition object_of :: "(string \<times> 'v) list \<Rightarrow> (string \<times> 'v) list" where
  "object_of kvs = fold (\<lambda>i m. map_assign m (fst i) (snd i)) kvs []"

subsection \<open>Serializer\<close>

definition bool_branch :: "bool \<Rightarrow> string" where
  "bool_branch b = (if b then ''true'' else ''false'')"

definition comma_branch :: "bool \<Rightarrow> string" where
  "comma_branch b = (if b then '', '' else '''')"

text \<open>
  \<^verbatim>\<open>value::json\<close> calls the \<^verbatim>\<open>json\<close> of the wrapper; for arrays and objects that is
  \<^verbatim>\<open>operator<<\<close>, whose loops count the elements written (\<open>count\<close>) against \<open>size\<close> to
  choose the separator.  Here the value is a tree, as every value is that the parser
  returns.  A value whose elements were assigned through \<^verbatim>\<open>get_array()\<close> or
  \<^verbatim>\<open>get_object()\<close> need not be one; the rendering of handles on the heap is \<open>value_json\<close>
  below, which agrees with \<open>json\<close> on the handles that stand for a tree.
\<close>

fun json :: "('n \<Rightarrow> string) \<Rightarrow> 'n jvalue \<Rightarrow> string"
  and put_array :: "('n \<Rightarrow> string) \<Rightarrow> nat \<Rightarrow> nat \<Rightarrow> 'n jvalue list \<Rightarrow> string"
  and put_object :: "('n \<Rightarrow> string) \<Rightarrow> nat \<Rightarrow> nat \<Rightarrow> (string \<times> 'n jvalue) list \<Rightarrow> string"
where
  "json sh Null = ''null''"
| "json sh (Bool b) = bool_branch b"
| "json sh (Number n) = sh n"
| "json sh (String s) = CHR 0x22 # escape s @ [CHR 0x22]"
| "json sh (Array v) = ''['' @ put_array sh (length v) 0 v @ '']''"
| "json sh (Object v) = ''{'' @ put_object sh (length v) 0 v @ ''}''"
| "put_array sh sz count [] = []"
| "put_array sh sz count (i # v) =
     json sh i @ comma_branch (Suc count < sz) @ put_array sh sz (Suc count) v"
| "put_object sh sz count [] = []"
| "put_object sh sz count (i # v) =
     CHR 0x22 # escape (fst i) @ CHR 0x22 # '': '' @ json sh (snd i)
       @ comma_branch (Suc count < sz) @ put_object sh sz (Suc count) v"

text \<open>The rendering as the specification words it: the items joined by comma and space.\<close>

fun join :: "string \<Rightarrow> string list \<Rightarrow> string" where
  "join sep [] = []"
| "join sep [x] = x"
| "join sep (x # y # xs) = x @ sep @ join sep (y # xs)"

definition render_pair :: "('n \<Rightarrow> string) \<Rightarrow> string \<times> 'n jvalue \<Rightarrow> string" where
  "render_pair sh i = CHR 0x22 # escape (fst i) @ CHR 0x22 # '': '' @ json sh (snd i)"

subsection \<open>Cursors\<close>

text \<open>
  The productions of \<^verbatim>\<open>namespace detail\<close> are templates over an iterator type, used at
  \<^verbatim>\<open>std::string::const_iterator\<close> and at \<^verbatim>\<open>detail::iterator<char>\<close>.  They use four operations
  of the cursor, which the model takes as a record: \<^verbatim>\<open>*cur\<close>, \<^verbatim>\<open>++cur\<close>, \<^verbatim>\<open>*(cur + 1)\<close> (where
  the stream cursor changes the state of its stream, so the cursor is returned too), and
  \<^verbatim>\<open>cur != end\<close>.
\<close>

record 'c iter_ops =
  deref :: "'c \<Rightarrow> char"
  incr :: "'c \<Rightarrow> 'c"
  peek :: "'c \<Rightarrow> char \<times> 'c"
  not_end :: "'c \<Rightarrow> bool"

text \<open>
  A string cursor is the list of the characters from \<^verbatim>\<open>cur\<close> to \<^verbatim>\<open>end\<close>.  Reading at \<^verbatim>\<open>end\<close>
  yields the terminating zero byte of the \<^verbatim>\<open>std::string\<close>.  No production increments a
  cursor that is at \<^verbatim>\<open>end\<close> (every branch taken on the zero byte throws or leaves the loop
  first); the model leaves such a cursor where it is.
\<close>

definition str_deref :: "string \<Rightarrow> char" where
  "str_deref cur = (case cur of [] \<Rightarrow> CHR 0x00 | c # _ \<Rightarrow> c)"

definition string_ops :: "string iter_ops" where
  "string_ops =
     \<lparr>deref = str_deref, incr = tl, peek = (\<lambda>cur. (str_deref (tl cur), cur)),
      not_end = (\<lambda>cur. cur \<noteq> [])\<rparr>"

text \<open>
  A \<^verbatim>\<open>std::basic_istream<char>\<close>: the characters not yet read and the state flags.
  \<^verbatim>\<open>get\<close> and \<^verbatim>\<open>peek\<close> are unformatted input functions: on a stream that is not good they
  set \<^verbatim>\<open>failbit\<close> and deliver \<^verbatim>\<open>EOF\<close> (here \<open>None\<close>); at the end of the characters \<^verbatim>\<open>get\<close> sets
  \<^verbatim>\<open>eofbit\<close> and \<^verbatim>\<open>failbit\<close>, \<^verbatim>\<open>peek\<close> sets \<^verbatim>\<open>eofbit\<close>.
\<close>

record istream =
  buf :: string
  eofbit :: bool
  failbit :: bool

definition good :: "istream \<Rightarrow> bool" where
  "good s \<longleftrightarrow> \<not> eofbit s \<and> \<not> failbit s"

definition istream_get :: "istream \<Rightarrow> char option \<times> istream" where
  "istream_get s =
     (if good s then
        (case buf s of
           [] \<Rightarrow> (None, s\<lparr>eofbit := True, failbit := True\<rparr>)
         | c # cs \<Rightarrow> (Some c, s\<lparr>buf := cs\<rparr>))
      else (None, s\<lparr>failbit := True\<rparr>))"

definition istream_peek :: "istream \<Rightarrow> char option \<times> istream" where
  "istream_peek s =
     (if good s then
        (case buf s of
           [] \<Rightarrow> (None, s\<lparr>eofbit := True\<rparr>)
         | c # cs \<Rightarrow> (Some c, s))
      else (None, s\<lparr>failbit := True\<rparr>))"

text \<open>The conversion of the \<^verbatim>\<open>int\<close> that \<^verbatim>\<open>get()\<close> and \<^verbatim>\<open>peek()\<close> return to \<^verbatim>\<open>char\<close>: \<^verbatim>\<open>EOF\<close> is -1.\<close>

definition to_char :: "char option \<Rightarrow> char" where
  "to_char r = (case r of None \<Rightarrow> CHR 0xFF | Some c \<Rightarrow> c)"

text \<open>
  \<^verbatim>\<open>detail::iterator<char>\<close>: a reference to the stream and the current character.  The
  stream is touched by this cursor only, so it is a field of the cursor.  \<^verbatim>\<open>operator++\<close> is
  \<^verbatim>\<open>istream.get(cur_val)\<close>, which leaves \<^verbatim>\<open>cur_val\<close> as it is when nothing is read;
  \<^verbatim>\<open>operator!=\<close> is \<^verbatim>\<open>istream.good()\<close>.
\<close>

record iterator =
  istream :: istream
  cur_val :: char

definition iterator_init :: "istream \<Rightarrow> iterator" where
  "iterator_init s = (let (r, s') = istream_get s in \<lparr>istream = s', cur_val = to_char r\<rparr>)"

definition iterator_incr :: "iterator \<Rightarrow> iterator" where
  "iterator_incr i =
     (let (r, s') = istream_get (istream i)
      in \<lparr>istream = s', cur_val = (case r of None \<Rightarrow> cur_val i | Some c \<Rightarrow> c)\<rparr>)"

definition iterator_peek :: "iterator \<Rightarrow> char \<times> iterator" where
  "iterator_peek i = (let (r, s') = istream_peek (istream i) in (to_char r, i\<lparr>istream := s'\<rparr>))"

definition stream_ops :: "iterator iter_ops" where
  "stream_ops =
     \<lparr>deref = cur_val, incr = iterator_incr, peek = iterator_peek,
      not_end = (\<lambda>i. good (istream i))\<rparr>"

subsection \<open>Parser\<close>

text \<open>
  A production returns \<open>None\<close> when its fuel is used up, \<open>Some (Inl e)\<close> when it throws \<open>e\<close>,
  and \<open>Some (Inr (x, cur))\<close> when it returns \<open>x\<close> and leaves the cursor, which it has by
  reference, at \<open>cur\<close>.  Every call and every turn of a loop takes one unit of fuel.
\<close>

type_synonym ('a, 'c) res = "(exception + 'a \<times> 'c) option"

definition is_whitespace :: "char \<Rightarrow> bool" where
  "is_whitespace c \<longleftrightarrow> c = CHR '' '' \<or> c = CHR 0x0D \<or> c = CHR 0x0A \<or> c = CHR 0x09"

definition isdigit :: "char \<Rightarrow> bool" where
  "isdigit c \<longleftrightarrow> CHR ''0'' \<le> c \<and> c \<le> CHR ''9''"

text \<open>The characters on which the loop of \<^verbatim>\<open>parse_number\<close> goes on.\<close>

definition number_char :: "char \<Rightarrow> bool" where
  "number_char c \<longleftrightarrow>
     isdigit c \<or> c = CHR ''-'' \<or> c = CHR ''.'' \<or> c = CHR ''e'' \<or> c = CHR ''E'' \<or> c = CHR ''+''"

text \<open>\<^verbatim>\<open>parse_string\<close>: the loop with its variables \<open>esc\<close> and \<open>rv\<close>.\<close>

fun parse_string :: "'c iter_ops \<Rightarrow> nat \<Rightarrow> bool \<Rightarrow> string \<Rightarrow> 'c \<Rightarrow> (string, 'c) res" where
  "parse_string ops 0 esc rv cur = None"
| "parse_string ops (Suc n) esc rv cur =
     (if not_end ops cur then
        (if deref ops cur = CHR 0x22 \<and> \<not> esc then Some (Inr (rv, cur))
         else
           (let esc' = (deref ops cur = CHR 0x5C \<and> \<not> esc);
                rv' = (if \<not> esc' then rv @ [deref ops cur] else rv)
            in parse_string ops n esc' rv' (incr ops cur)))
      else Some (Inl (exception (''bad string: '' @ rv))))"

text \<open>
  \<^verbatim>\<open>parse_number\<close>: the loop collects the text \<open>io\<close>; the text is converted when the loop is
  left, by \<^verbatim>\<open>break\<close> or by its condition.
\<close>

fun parse_number :: "'c iter_ops \<Rightarrow> (string \<Rightarrow> 'n) \<Rightarrow> nat \<Rightarrow> string \<Rightarrow> 'c \<Rightarrow> ('n jvalue, 'c) res" where
  "parse_number ops rd 0 io cur = None"
| "parse_number ops rd (Suc n) io cur =
     (let io' = io @ [deref ops cur];
          (next, cur1) = peek ops cur
      in if \<not> number_char next then Some (Inr (value_of_double (rd io'), cur1))
         else
           (let cur2 = incr ops cur1
            in if not_end ops cur2 then parse_number ops rd n io' cur2
               else Some (Inr (value_of_double (rd io'), cur2))))"

text \<open>
  The conditions \<^verbatim>\<open>*++cur=='u' && *++cur=='l' && ...\<close>: the cursor is advanced before each
  comparison, and the first comparison that fails ends the chain.
\<close>

fun expect :: "'c iter_ops \<Rightarrow> string \<Rightarrow> 'c \<Rightarrow> bool \<times> 'c" where
  "expect ops [] cur = (True, cur)"
| "expect ops (x # xs) cur =
     (let cur' = incr ops cur
      in if deref ops cur' = x then expect ops xs cur' else (False, cur'))"

text \<open>
  \<^verbatim>\<open>detail::parse\<close>, \<^verbatim>\<open>parse_array\<close> (variables \<open>rv\<close>, \<open>accept\<close>, \<open>has_elements\<close>) and
  \<^verbatim>\<open>parse_object\<close> (variables \<open>rv\<close>, \<open>key\<close>, \<open>got_key\<close>, \<open>got_elements\<close>).  In the two loops
  \<^verbatim>\<open>continue\<close> and the end of the body both lead to the condition \<^verbatim>\<open>++cur != end\<close>, and
  leaving the loop leads to the \<^verbatim>\<open>throw\<close> after it.
\<close>

fun detail_parse :: "'c iter_ops \<Rightarrow> (string \<Rightarrow> 'n) \<Rightarrow> nat \<Rightarrow> 'c \<Rightarrow> ('n jvalue, 'c) res"
  and parse_array ::
    "'c iter_ops \<Rightarrow> (string \<Rightarrow> 'n) \<Rightarrow> nat \<Rightarrow> 'n jvalue list \<Rightarrow> bool \<Rightarrow> bool \<Rightarrow> 'c
      \<Rightarrow> ('n jvalue list, 'c) res"
  and parse_object ::
    "'c iter_ops \<Rightarrow> (string \<Rightarrow> 'n) \<Rightarrow> nat \<Rightarrow> (string \<times> 'n jvalue) list \<Rightarrow> string \<Rightarrow> bool \<Rightarrow> bool \<Rightarrow> 'c
      \<Rightarrow> ((string \<times> 'n jvalue) list, 'c) res"
where
  "detail_parse ops rd 0 cur = None"
| "detail_parse ops rd (Suc n) cur =
     (let c = deref ops cur in
      if c = CHR 0x22 then
        (case parse_string ops n False [] (incr ops cur) of
           None \<Rightarrow> None
         | Some (Inl e) \<Rightarrow> Some (Inl e)
         | Some (Inr (s, cur')) \<Rightarrow> Some (Inr (value_of_string s, cur')))
      else if c = CHR ''['' then
        (case parse_array ops rd n [] True False (incr ops cur) of
           None \<Rightarrow> None
         | Some (Inl e) \<Rightarrow> Some (Inl e)
         | Some (Inr (a, cur')) \<Rightarrow> Some (Inr (value_of_array a, cur')))
      else if c = CHR ''{'' then
        (case parse_object ops rd n [] [] False False (incr ops cur) of
           None \<Rightarrow> None
         | Some (Inl e) \<Rightarrow> Some (Inl e)
         | Some (Inr (m, cur')) \<Rightarrow> Some (Inr (value_of_object m, cur')))
      else if isdigit c \<or> c = CHR ''-'' then parse_number ops rd n [] cur
      else if c = CHR ''n'' then
        (case expect ops ''ull'' cur of
           (True, cur') \<Rightarrow> Some (Inr (value_null, cur'))
         | (False, cur') \<Rightarrow> Some (Inl (exception ''bad json: null'')))
      else if c = CHR ''t'' then
        (case expect ops ''rue'' cur of
           (True, cur') \<Rightarrow> Some (Inr (value_of_bool True, cur'))
         | (False, cur') \<Rightarrow> Some (Inl (exception (''bad json: '' @ [deref ops cur']))))
      else if c = CHR ''f'' then
        (case expect ops ''alse'' cur of
           (True, cur') \<Rightarrow> Some (Inr (value_of_bool False, cur'))
         | (False, cur') \<Rightarrow> Some (Inl (exception ''bad json: false'')))
      else if c = CHR '' '' \<or> c = CHR 0x0D \<or> c = CHR 0x0A \<or> c = CHR 0x09 then
        (let cur' = incr ops cur
         in if not_end ops cur' then detail_parse ops rd n cur'
            else Some (Inl (exception ''bad json'')))
      else Some (Inl (exception ''bad json'')))"
| "parse_array ops rd 0 rv accept has_elements cur = None"
| "parse_array ops rd (Suc n) rv accept has_elements cur =
     (if is_whitespace (deref ops cur) then
        (let cur' = incr ops cur
         in if not_end ops cur' then parse_array ops rd n rv accept has_elements cur'
            else Some (Inl (exception ''bad array'')))
      else if deref ops cur = CHR '']'' \<and> (has_elements \<noteq> accept) then Some (Inr (rv, cur))
      else if accept then
        (case detail_parse ops rd n cur of
           None \<Rightarrow> None
         | Some (Inl e) \<Rightarrow> Some (Inl e)
         | Some (Inr (v, cur1)) \<Rightarrow>
             (let cur' = incr ops cur1
              in if not_end ops cur' then parse_array ops rd n (rv @ [v]) False True cur'
                 else Some (Inl (exception ''bad array''))))
      else if deref ops cur = CHR '','' then
        (let cur' = incr ops cur
         in if not_end ops cur' then parse_array ops rd n rv True has_elements cur'
            else Some (Inl (exception ''bad array'')))
      else Some (Inl (exception ''bad array'')))"
| "parse_object ops rd 0 rv key got_key got_elements cur = None"
| "parse_object ops rd (Suc n) rv key got_key got_elements cur =
     (if deref ops cur = CHR ''}'' \<and> \<not> got_key then Some (Inr (rv, cur))
      else if is_whitespace (deref ops cur) then
        (let cur' = incr ops cur
         in if not_end ops cur' then parse_object ops rd n rv key got_key got_elements cur'
            else Some (Inl (exception ''bad object'')))
      else if deref ops cur = CHR 0x22 then
        (case parse_string ops n False [] (incr ops cur) of
           None \<Rightarrow> None
         | Some (Inl e) \<Rightarrow> Some (Inl e)
         | Some (Inr (k, cur1)) \<Rightarrow>
             (let cur' = incr ops cur1
              in if not_end ops cur' then parse_object ops rd n rv k True got_elements cur'
                 else Some (Inl (exception ''bad object''))))
      else if got_key \<and> deref ops cur = CHR '':'' then
        (case detail_parse ops rd n (incr ops cur) of
           None \<Rightarrow> None
         | Some (Inl e) \<Rightarrow> Some (Inl e)
         | Some (Inr (v, cur1)) \<Rightarrow>
             (let cur' = incr ops cur1
              in if not_end ops cur' then parse_object ops rd n (map_assign rv key v) key False True cur'
                 else Some (Inl (exception ''bad object''))))
      else if got_elements \<and> \<not> got_key \<and> deref ops cur = CHR '','' then
        (let cur' = incr ops cur
         in if not_end ops cur' then parse_object ops rd n rv key got_key got_elements cur'
            else Some (Inl (exception ''bad object'')))
      else Some (Inl (exception ''bad object'')))"

text \<open>
  The loop \<^verbatim>\<open>while(++i != e)\<close> of the two entry points, and their common body: one value,
  then nothing but whitespace.
\<close>

fun skip_trailing :: "'c iter_ops \<Rightarrow> nat \<Rightarrow> 'c \<Rightarrow> (unit, 'c) res" where
  "skip_trailing ops 0 i = None"
| "skip_trailing ops (Suc n) i =
     (let i' = incr ops i
      in if not_end ops i' then
           (if \<not> is_whitespace (deref ops i')
            then Some (Inl (exception (''garbage at end of input: '' @ [deref ops i'])))
            else skip_trailing ops n i')
         else Some (Inr ((), i')))"

definition parse_from :: "'c iter_ops \<Rightarrow> (string \<Rightarrow> 'n) \<Rightarrow> nat \<Rightarrow> 'c \<Rightarrow> (exception + 'n jvalue) option" where
  "parse_from ops rd n i =
     (case detail_parse ops rd n i of
        None \<Rightarrow> None
      | Some (Inl e) \<Rightarrow> Some (Inl e)
      | Some (Inr (v, i')) \<Rightarrow>
          (case skip_trailing ops n i' of
             None \<Rightarrow> None
           | Some (Inl e) \<Rightarrow> Some (Inl e)
           | Some (Inr _) \<Rightarrow> Some (Inr v)))"

text \<open>
  \<^verbatim>\<open>parse(string const&)\<close> with fuel \<open>n\<close>, and with the fuel \<open>2 * length s + 1\<close>, which is
  shown below to be enough for every text: the parser of strings is total.
\<close>

definition parse_fuel :: "(string \<Rightarrow> 'n) \<Rightarrow> nat \<Rightarrow> string \<Rightarrow> (exception + 'n jvalue) option" where
  "parse_fuel rd n s = parse_from string_ops rd n s"

definition parse :: "(string \<Rightarrow> 'n) \<Rightarrow> string \<Rightarrow> (exception + 'n jvalue) option" where
  "parse rd s = parse_fuel rd (2 * length s + 1) s"

text \<open>\<^verbatim>\<open>parse(std::basic_istream<char>&)\<close>, on a stream in its initial state over the text.\<close>

definition istream_of :: "string \<Rightarrow> istream" where
  "istream_of s = \<lparr>buf = s, eofbit = False, failbit = False\<rparr>"

definition parse_istream :: "(string \<Rightarrow> 'n) \<Rightarrow> nat \<Rightarrow> istream \<Rightarrow> (exception + 'n jvalue) option" where
  "parse_istream rd n s = parse_from stream_ops rd n (iterator_init s)"

subsection \<open>A sample platform\<close>

text \<open>
  For closed instances of the theorems below the two conversions are needed at particular
  texts.  This platform computes them in exact decimal arithmetic: a number is
  \<open>mantissa \<times> 10\<^sup>e\<^sup>x\<^sup>p\<^sup>o\<^sup>n\<^sup>e\<^sup>n\<^sup>t\<close> with a sign, the mantissa without trailing zeros.
  \<open>read_double\<close> reads an optional sign, digits, an optional fraction and an optional
  exponent, as \<^verbatim>\<open>operator>>\<close> does on such a text (0 when there is no digit).
  \<open>show_double\<close> is the default formatting of \<^verbatim>\<open>operator<<\<close>, which is \<^verbatim>\<open>printf("%g")\<close>:
  six significant digits, trailing zeros removed, scientific notation when the decimal
  exponent is less than -4 or at least 6.  They agree with the C++ library where the
  decimal value is a \<^verbatim>\<open>double\<close> and is not halfway between two roundings: \<open>read_double\<close> on
  every numeral of such a value, \<open>show_double\<close> on every such number.  On a text that is no numeral
  (two signs, a second point, an exponent mark without digits) the library's result is
  implementation specific; \<open>read_double\<close> then takes the longest prefix that is a numeral,
  and no theorem stated for every platform depends on it.
\<close>

datatype decimal = Decimal (negative: bool) (mantissa: nat) (exponent: int)

definition digit_of :: "char \<Rightarrow> nat" where
  "digit_of c = of_char c - 48"

definition digit_char :: "nat \<Rightarrow> char" where
  "digit_char d = ''0123456789'' ! d"

definition nat_of_digits :: "string \<Rightarrow> nat" where
  "nat_of_digits ds = foldl (\<lambda>a c. 10 * a + digit_of c) 0 ds"

fun digits_of_nat :: "nat \<Rightarrow> string" where
  "digits_of_nat n =
     (if n < 10 then [digit_char n] else digits_of_nat (n div 10) @ [digit_char (n mod 10)])"

declare digits_of_nat.simps [simp del]

fun strip_zeros :: "nat \<Rightarrow> int \<Rightarrow> nat \<times> int" where
  "strip_zeros m e = (if m \<noteq> 0 \<and> m mod 10 = 0 then strip_zeros (m div 10) (e + 1) else (m, e))"

declare strip_zeros.simps [simp del]

definition make_decimal :: "bool \<Rightarrow> nat \<Rightarrow> int \<Rightarrow> decimal" where
  "make_decimal neg m e =
     (if m = 0 then Decimal neg 0 0 else (let (m', e') = strip_zeros m e in Decimal neg m' e'))"

definition read_exponent :: "string \<Rightarrow> int" where
  "read_exponent s =
     (case s of
        [] \<Rightarrow> 0
      | c # r \<Rightarrow>
          if c = CHR ''e'' \<or> c = CHR ''E'' then
            (case r of
               [] \<Rightarrow> 0
             | d # r' \<Rightarrow>
                 if d = CHR ''-'' then - int (nat_of_digits (takeWhile isdigit r'))
                 else if d = CHR ''+'' then int (nat_of_digits (takeWhile isdigit r'))
                 else int (nat_of_digits (takeWhile isdigit r)))
          else 0)"

definition read_double :: "string \<Rightarrow> decimal" where
  "read_double s =
     (let neg = (s \<noteq> [] \<and> hd s = CHR ''-'');
          s1 = (if s \<noteq> [] \<and> (hd s = CHR ''-'' \<or> hd s = CHR ''+'') then tl s else s);
          ip = takeWhile isdigit s1;
          s2 = dropWhile isdigit s1;
          fp = (if s2 \<noteq> [] \<and> hd s2 = CHR ''.'' then takeWhile isdigit (tl s2) else []);
          s3 = (if s2 \<noteq> [] \<and> hd s2 = CHR ''.'' then dropWhile isdigit (tl s2) else s2)
      in if ip = [] \<and> fp = [] then Decimal False 0 0
         else make_decimal neg (nat_of_digits (ip @ fp)) (read_exponent s3 - int (length fp)))"

definition round_half_even :: "nat \<Rightarrow> nat \<Rightarrow> nat" where
  "round_half_even m d =
     (let q = m div d; r = m mod d
      in if 2 * r < d \<or> (2 * r = d \<and> even q) then q else q + 1)"

definition significant :: "nat \<Rightarrow> nat \<times> int" where
  "significant m =
     (let l = length (digits_of_nat m)
      in if l \<le> 6 then (m, 0)
         else (let q = round_half_even m (10 ^ (l - 6))
               in if q = 10 ^ 6 then (1, int l) else strip_zeros q (int l - 6)))"

definition show_exponent :: "int \<Rightarrow> string" where
  "show_exponent x =
     CHR ''e'' # (if x < 0 then CHR ''-'' else CHR ''+'')
       # (if nat \<bar>x\<bar> < 10 then ''0'' else '''') @ digits_of_nat (nat \<bar>x\<bar>)"

definition show_double :: "decimal \<Rightarrow> string" where
  "show_double d =
     (if negative d then ''-'' else '''') @
     (if mantissa d = 0 then ''0''
      else
        (let (m, k) = significant (mantissa d);
             sd = digits_of_nat m;
             x = exponent d + k + int (length sd) - 1
         in if x < - 4 \<or> 6 \<le> x then
              hd sd # (if tl sd = [] then [] else CHR ''.'' # tl sd) @ show_exponent x
            else if 0 \<le> x then
              take (nat x + 1) (sd @ replicate (nat x + 1 - length sd) CHR ''0'')
                @ (if nat x + 1 < length sd then CHR ''.'' # drop (nat x + 1) sd else [])
            else ''0.'' @ replicate (nat (- x - 1)) CHR ''0'' @ sd))"

subsection \<open>Relating the two cursors\<close>

text \<open>
  A string cursor and a stream cursor are aligned when they stand at the same place of
  the same text: at a character, the stream is good, holds that character as \<open>cur_val\<close>
  and has the rest of the text unread; at \<^verbatim>\<open>end\<close>, the stream is not good.  A production
  returns with its cursor on a character; the stream may then have met the end of the
  text by \<open>peek\<close>, which is the second relation.
\<close>

definition aligned :: "string \<Rightarrow> iterator \<Rightarrow> bool" where
  "aligned cs i \<longleftrightarrow>
     (case cs of
        [] \<Rightarrow> \<not> good (istream i)
      | c # rest \<Rightarrow> cur_val i = c \<and> buf (istream i) = rest \<and> good (istream i))"

definition aligned_ret :: "string \<Rightarrow> iterator \<Rightarrow> bool" where
  "aligned_ret cs i \<longleftrightarrow>
     (case cs of
        [] \<Rightarrow> False
      | c # rest \<Rightarrow>
          cur_val i = c \<and>
          (if good (istream i) then buf (istream i) = rest else rest = []))"

text \<open>The simulation statements for the three mutually recursive productions, at fuel \<open>n\<close>.\<close>

definition sim_parse :: "(string \<Rightarrow> 'n) \<Rightarrow> nat \<Rightarrow> bool" where
  "sim_parse rd n \<longleftrightarrow>
     (\<forall>cs i v cs'. aligned cs i \<longrightarrow> detail_parse string_ops rd n cs = Some (Inr (v, cs')) \<longrightarrow>
        (\<exists>i'. detail_parse stream_ops rd n i = Some (Inr (v, i')) \<and> aligned_ret cs' i'))"

definition sim_array :: "(string \<Rightarrow> 'n) \<Rightarrow> nat \<Rightarrow> bool" where
  "sim_array rd n \<longleftrightarrow>
     (\<forall>rv accept has cs i a cs'. aligned cs i \<longrightarrow>
        parse_array string_ops rd n rv accept has cs = Some (Inr (a, cs')) \<longrightarrow>
        (\<exists>i'. parse_array stream_ops rd n rv accept has i = Some (Inr (a, i')) \<and> aligned_ret cs' i'))"

definition sim_object :: "(string \<Rightarrow> 'n) \<Rightarrow> nat \<Rightarrow> bool" where
  "sim_object rd n \<longleftrightarrow>
     (\<forall>rv key gk ge cs i m cs'. aligned cs i \<longrightarrow>
        parse_object string_ops rd n rv key gk ge cs = Some (Inr (m, cs')) \<longrightarrow>
        (\<exists>i'. parse_object stream_ops rd n rv key gk ge i = Some (Inr (m, i')) \<and> aligned_ret cs' i'))"

text \<open>The characters on which \<^verbatim>\<open>detail::parse\<close> starts a value.\<close>

definition value_start :: "char \<Rightarrow> bool" where
  "value_start c \<longleftrightarrow>
     c = CHR 0x22 \<or> c = CHR ''['' \<or> c = CHR ''{'' \<or> isdigit c \<or> c = CHR ''-''
     \<or> c = CHR ''n'' \<or> c = CHR ''t'' \<or> c = CHR ''f''"

text \<open>One more unit of fuel does not change a result, for the three productions at fuel \<open>n\<close>.\<close>

definition mono_at :: "'c iter_ops \<Rightarrow> (string \<Rightarrow> 'n) \<Rightarrow> nat \<Rightarrow> bool" where
  "mono_at ops rd n \<longleftrightarrow>
     (\<forall>cur r. detail_parse ops rd n cur = Some r \<longrightarrow> detail_parse ops rd (Suc n) cur = Some r)
   \<and> (\<forall>rv accept has cur r. parse_array ops rd n rv accept has cur = Some r
        \<longrightarrow> parse_array ops rd (Suc n) rv accept has cur = Some r)
   \<and> (\<forall>rv key gk ge cur r. parse_object ops rd n rv key gk ge cur = Some r
        \<longrightarrow> parse_object ops rd (Suc n) rv key gk ge cur = Some r)"

subsection \<open>Values the parser builds\<close>

text \<open>
  In a value built by the parser every object is a \<^verbatim>\<open>std::map\<close>: the keys of its entries
  increase strictly.
\<close>

fun well_formed :: "'n jvalue \<Rightarrow> bool"
  and well_formed_array :: "'n jvalue list \<Rightarrow> bool"
  and well_formed_object :: "(string \<times> 'n jvalue) list \<Rightarrow> bool"
where
  "well_formed Null = True"
| "well_formed (Bool b) = True"
| "well_formed (Number n) = True"
| "well_formed (String s) = True"
| "well_formed (Array v) = well_formed_array v"
| "well_formed (Object v) = (is_map v \<and> well_formed_object v)"
| "well_formed_array [] = True"
| "well_formed_array (i # v) = (well_formed i \<and> well_formed_array v)"
| "well_formed_object [] = True"
| "well_formed_object (i # v) = (well_formed (snd i) \<and> well_formed_object v)"

text \<open>
  The statement of totality for the three mutually recursive productions on a string,
  at fuel \<open>n\<close>: with two units of fuel for each character left and one or two more, the
  production returns or throws, and where it returns, the cursor is on a character, not
  before the place it started from, and the result is well formed.
\<close>

definition total_at :: "(string \<Rightarrow> 'n) \<Rightarrow> nat \<Rightarrow> bool" where
  "total_at rd n \<longleftrightarrow>
     (\<forall>cs. 2 * length cs + 1 \<le> n \<longrightarrow>
        (\<exists>r. detail_parse string_ops rd n cs = Some r \<and>
           (\<forall>v cs'. r = Inr (v, cs') \<longrightarrow> cs' \<noteq> [] \<and> length cs' \<le> length cs \<and> well_formed v)))
   \<and> (\<forall>rv accept has cs. 2 * length cs + 2 \<le> n \<longrightarrow> well_formed_array rv \<longrightarrow>
        (\<exists>r. parse_array string_ops rd n rv accept has cs = Some r \<and>
           (\<forall>a cs'. r = Inr (a, cs') \<longrightarrow> cs' \<noteq> [] \<and> length cs' \<le> length cs \<and> well_formed_array a)))
   \<and> (\<forall>rv key gk ge cs. 2 * length cs + 2 \<le> n \<longrightarrow> is_map rv \<longrightarrow> well_formed_object rv \<longrightarrow>
        (\<exists>r. parse_object string_ops rd n rv key gk ge cs = Some r \<and>
           (\<forall>m cs'. r = Inr (m, cs') \<longrightarrow>
              cs' \<noteq> [] \<and> length cs' \<le> length cs \<and> is_map m \<and> well_formed_object m)))"

subsection \<open>Runs of the productions on a string\<close>

text \<open>
  A production on a string runs to a result when some fuel gives that result; by the
  lemmas on fuel every greater fuel then gives the same result.
\<close>

definition runs_string :: "bool \<Rightarrow> string \<Rightarrow> string \<Rightarrow> exception + string \<times> string \<Rightarrow> bool" where
  "runs_string esc rv cs r \<longleftrightarrow> (\<exists>n. parse_string string_ops n esc rv cs = Some r)"

definition runs_parse :: "(string \<Rightarrow> 'n) \<Rightarrow> string \<Rightarrow> exception + 'n jvalue \<times> string \<Rightarrow> bool" where
  "runs_parse rd cs r \<longleftrightarrow> (\<exists>n. detail_parse string_ops rd n cs = Some r)"

definition runs_array ::
  "(string \<Rightarrow> 'n) \<Rightarrow> 'n jvalue list \<Rightarrow> bool \<Rightarrow> bool \<Rightarrow> string
    \<Rightarrow> exception + 'n jvalue list \<times> string \<Rightarrow> bool" where
  "runs_array rd rv accept has cs r \<longleftrightarrow>
     (\<exists>n. parse_array string_ops rd n rv accept has cs = Some r)"

definition runs_object ::
  "(string \<Rightarrow> 'n) \<Rightarrow> (string \<times> 'n jvalue) list \<Rightarrow> string \<Rightarrow> bool \<Rightarrow> bool \<Rightarrow> string
    \<Rightarrow> exception + (string \<times> 'n jvalue) list \<times> string \<Rightarrow> bool" where
  "runs_object rd rv key gk ge cs r \<longleftrightarrow>
     (\<exists>n. parse_object string_ops rd n rv key gk ge cs = Some r)"

subsection \<open>Texts\<close>

text \<open>
  A number token: what \<^verbatim>\<open>parse_number\<close> takes as a whole, a digit or a minus sign and then
  characters of numbers.  The numbers of a value survive rendering when the platform
  writes each of them as a number token from which it reads the same number back.
\<close>

definition number_token :: "string \<Rightarrow> bool" where
  "number_token s \<longleftrightarrow>
     (case s of [] \<Rightarrow> False | d # ds \<Rightarrow> (isdigit d \<or> d = CHR ''-'') \<and> list_all number_char ds)"

fun numbers_ok :: "(string \<Rightarrow> 'n) \<Rightarrow> ('n \<Rightarrow> string) \<Rightarrow> 'n jvalue \<Rightarrow> bool"
  and numbers_ok_array :: "(string \<Rightarrow> 'n) \<Rightarrow> ('n \<Rightarrow> string) \<Rightarrow> 'n jvalue list \<Rightarrow> bool"
  and numbers_ok_object :: "(string \<Rightarrow> 'n) \<Rightarrow> ('n \<Rightarrow> string) \<Rightarrow> (string \<times> 'n jvalue) list \<Rightarrow> bool"
where
  "numbers_ok rd sh Null = True"
| "numbers_ok rd sh (Bool b) = True"
| "numbers_ok rd sh (Number x) = (number_token (sh x) \<and> rd (sh x) = x)"
| "numbers_ok rd sh (String s) = True"
| "numbers_ok rd sh (Array v) = numbers_ok_array rd sh v"
| "numbers_ok rd sh (Object v) = numbers_ok_object rd sh v"
| "numbers_ok_array rd sh [] = True"
| "numbers_ok_array rd sh (i # v) = (numbers_ok rd sh i \<and> numbers_ok_array rd sh v)"
| "numbers_ok_object rd sh [] = True"
| "numbers_ok_object rd sh (i # v) = (numbers_ok rd sh (snd i) \<and> numbers_ok_object rd sh v)"

text \<open>
  A text \<open>t\<close> parses as the value \<open>v\<close> wherever it stands: \<^verbatim>\<open>detail::parse\<close>, started on the
  first character of \<open>t\<close>, returns \<open>v\<close> with the cursor on the last character of \<open>t\<close>,
  whatever follows, as long as what follows does not continue a number.
\<close>

definition parses_as :: "(string \<Rightarrow> 'n) \<Rightarrow> string \<Rightarrow> 'n jvalue \<Rightarrow> bool" where
  "parses_as rd t v \<longleftrightarrow>
     t \<noteq> [] \<and> value_start (hd t) \<and>
     (\<forall>rest. \<not> number_char (str_deref rest) \<longrightarrow>
        runs_parse rd (t @ rest) (Inr (v, last t # rest)))"

text \<open>
  The text of an object: members, each a key, the text of a value and the value that
  text parses as, written with the key escaped in double quotes, a colon and the text
  of the value, separated by commas.  The layout gives the whitespace after the opening
  brace, after a comma, after a key, after a colon and after a value.
\<close>

record layout =
  after_brace :: string
  after_comma :: string
  after_key :: string
  after_colon :: string
  after_value :: string

definition layout_ok :: "layout \<Rightarrow> bool" where
  "layout_ok l \<longleftrightarrow>
     list_all is_whitespace (after_brace l) \<and> list_all is_whitespace (after_comma l) \<and>
     list_all is_whitespace (after_key l) \<and> list_all is_whitespace (after_colon l) \<and>
     list_all is_whitespace (after_value l)"

definition member_text :: "layout \<Rightarrow> string \<times> string \<times> 'n jvalue \<Rightarrow> string" where
  "member_text l m =
     CHR 0x22 # escape (fst m) @ CHR 0x22 # after_key l @ CHR '':'' # after_colon l @ fst (snd m)"

definition members_tail :: "layout \<Rightarrow> (string \<times> string \<times> 'n jvalue) list \<Rightarrow> string" where
  "members_tail l ms =
     concat (map (\<lambda>m. after_value l @ CHR '','' # after_comma l @ member_text l m) ms)
       @ after_value l @ ''}''"

definition object_text :: "layout \<Rightarrow> (string \<times> string \<times> 'n jvalue) list \<Rightarrow> string" where
  "object_text l ms =
     CHR ''{'' # after_brace l @
       (case ms of [] \<Rightarrow> ''}'' | m # ms' \<Rightarrow> member_text l m @ members_tail l ms')"

text \<open>The entries that the members assign, in order.\<close>

definition entries :: "(string \<times> string \<times> 'n jvalue) list \<Rightarrow> (string \<times> 'n jvalue) list" where
  "entries ms = map (\<lambda>m. (fst m, snd (snd m))) ms"

text \<open>The layout of \<^verbatim>\<open>operator<<\<close>, and the members of an object as it writes them.\<close>

definition json_layout :: layout where
  "json_layout =
     \<lparr>after_brace = [], after_comma = '' '', after_key = [], after_colon = '' '', after_value = []\<rparr>"

definition json_members ::
  "('n \<Rightarrow> string) \<Rightarrow> (string \<times> 'n jvalue) list \<Rightarrow> (string \<times> string \<times> 'n jvalue) list" where
  "json_members sh m = map (\<lambda>i. (fst i, json sh (snd i), snd i)) m"

definition compact :: layout where
  "compact = \<lparr>after_brace = [], after_comma = [], after_key = [], after_colon = [], after_value = []\<rparr>"


subsection \<open>Handles and shared storage\<close>

text \<open>
  For the sharing between copies, \<^verbatim>\<open>class value\<close> is modelled as it is laid out: the
  \<^verbatim>\<open>std::shared_ptr<detail::value_t>\<close> is the address of a wrapper object on the heap, beside
  it stands the tag.  The heap is the list of the wrapper objects allocated so far, an
  address is an index into it.  The payload of an \<^verbatim>\<open>array_wrapper\<close> is a vector of values,
  that is of handles, and so for \<^verbatim>\<open>object_wrapper\<close>.  Reference counts and deallocation
  are not modelled: a wrapper stays on the heap.
\<close>

record handle =
  value_ptr :: nat
  value_type :: ValueType

datatype 'n value_t =
    null_wrapper
  | bool_wrapper bool
  | number_wrapper 'n
  | string_wrapper string
  | array_wrapper "handle list"
  | object_wrapper "(string \<times> handle) list"

type_synonym 'n heap = "'n value_t list"

text \<open>
  The constructors \<^verbatim>\<open>value(array const& x)\<close> and \<^verbatim>\<open>value(object const& x)\<close> allocate a
  wrapper that holds a copy of \<open>x\<close>; the copy constructor \<^verbatim>\<open>value(value const& v)\<close> copies
  the pointer and the tag and allocates nothing.
\<close>

definition value_from_array :: "'n heap \<Rightarrow> handle list \<Rightarrow> 'n heap \<times> handle" where
  "value_from_array h x = (h @ [array_wrapper x], \<lparr>value_ptr = length h, value_type = JSON_ARRAY\<rparr>)"

definition value_from_object :: "'n heap \<Rightarrow> (string \<times> handle) list \<Rightarrow> 'n heap \<times> handle" where
  "value_from_object h x =
     (h @ [object_wrapper x], \<lparr>value_ptr = length h, value_type = JSON_OBJECT\<rparr>)"

definition value_copy :: "handle \<Rightarrow> handle" where
  "value_copy v = \<lparr>value_ptr = value_ptr v, value_type = value_type v\<rparr>"

text \<open>
  \<^verbatim>\<open>value::get_array()\<close> calls \<^verbatim>\<open>_value->get_array()\<close>, which returns a reference to the vector
  in the wrapper, or throws in a wrapper of another class.  Reading through the
  reference gives the vector; a write through it (\<^verbatim>\<open>push_back\<close>, an assignment to an
  element, \<^verbatim>\<open>clear\<close>, ...) replaces the vector in the wrapper by \<open>f\<close> of it.  The result is
  \<open>None\<close> for a pointer to no wrapper, which the constructors never make.
\<close>

definition value_get_array :: "'n heap \<Rightarrow> handle \<Rightarrow> (exception + handle list) option" where
  "value_get_array h v =
     (if value_ptr v < length h then
        (case h ! value_ptr v of
           array_wrapper a \<Rightarrow> Some (Inr a)
         | _ \<Rightarrow> Some (Inl invalid_cast))
      else None)"

definition value_update_array ::
  "'n heap \<Rightarrow> handle \<Rightarrow> (handle list \<Rightarrow> handle list) \<Rightarrow> (exception + 'n heap) option" where
  "value_update_array h v f =
     (if value_ptr v < length h then
        (case h ! value_ptr v of
           array_wrapper a \<Rightarrow> Some (Inr (h[value_ptr v := array_wrapper (f a)]))
         | _ \<Rightarrow> Some (Inl invalid_cast))
      else None)"

definition value_get_object :: "'n heap \<Rightarrow> handle \<Rightarrow> (exception + (string \<times> handle) list) option" where
  "value_get_object h v =
     (if value_ptr v < length h then
        (case h ! value_ptr v of
           object_wrapper m \<Rightarrow> Some (Inr m)
         | _ \<Rightarrow> Some (Inl invalid_cast))
      else None)"

definition value_update_object ::
  "'n heap \<Rightarrow> handle \<Rightarrow> ((string \<times> handle) list \<Rightarrow> (string \<times> handle) list)
    \<Rightarrow> (exception + 'n heap) option" where
  "value_update_object h v f =
     (if value_ptr v < length h then
        (case h ! value_ptr v of
           object_wrapper m \<Rightarrow> Some (Inr (h[value_ptr v := object_wrapper (f m)]))
         | _ \<Rightarrow> Some (Inl invalid_cast))
      else None)"

subsection \<open>Rendering of shared storage\<close>

text \<open>
  \<^verbatim>\<open>value::json()\<close> is \<^verbatim>\<open>_value->json()\<close>, the virtual \<^verbatim>\<open>json\<close> of the wrapper the pointer
  addresses; the tag is not read.  In \<^verbatim>\<open>array_wrapper\<close> and \<^verbatim>\<open>object_wrapper\<close> it is
  \<^verbatim>\<open>operator<<\<close> on the payload, which calls \<^verbatim>\<open>json()\<close> of every element, a handle again.
  The wrappers reached that way may include the one the rendering started from, since an
  element can be assigned any value (\<^verbatim>\<open>o.get_object()["self"] = o\<close>); the calls then nest
  without end.  The fuel bounds the nesting of the calls of \<^verbatim>\<open>value::json()\<close>: the result
  is \<open>None\<close> when a call nested deeper than the fuel is needed, so that a rendering that
  does not return is \<open>None\<close> at every fuel.  A pointer to no wrapper, which the
  constructors never make, is the fault \<open>no_wrapper\<close>.
\<close>

datatype fault = no_wrapper

fun value_json :: "('n \<Rightarrow> string) \<Rightarrow> nat \<Rightarrow> 'n heap \<Rightarrow> handle \<Rightarrow> (fault + string) option"
  and heap_put_array ::
    "('n \<Rightarrow> string) \<Rightarrow> nat \<Rightarrow> 'n heap \<Rightarrow> nat \<Rightarrow> nat \<Rightarrow> handle list \<Rightarrow> (fault + string) option"
  and heap_put_object ::
    "('n \<Rightarrow> string) \<Rightarrow> nat \<Rightarrow> 'n heap \<Rightarrow> nat \<Rightarrow> nat \<Rightarrow> (string \<times> handle) list
      \<Rightarrow> (fault + string) option"
where
  "value_json sh 0 h v = None"
| "value_json sh (Suc n) h v =
     (if value_ptr v < length h then
        (case h ! value_ptr v of
           null_wrapper \<Rightarrow> Some (Inr ''null'')
         | bool_wrapper b \<Rightarrow> Some (Inr (bool_branch b))
         | number_wrapper x \<Rightarrow> Some (Inr (sh x))
         | string_wrapper s \<Rightarrow> Some (Inr (CHR 0x22 # escape s @ [CHR 0x22]))
         | array_wrapper a \<Rightarrow>
             (case heap_put_array sh n h (length a) 0 a of
                None \<Rightarrow> None
              | Some (Inl e) \<Rightarrow> Some (Inl e)
              | Some (Inr s) \<Rightarrow> Some (Inr (''['' @ s @ '']'')))
         | object_wrapper m \<Rightarrow>
             (case heap_put_object sh n h (length m) 0 m of
                None \<Rightarrow> None
              | Some (Inl e) \<Rightarrow> Some (Inl e)
              | Some (Inr s) \<Rightarrow> Some (Inr (''{'' @ s @ ''}''))))
      else Some (Inl no_wrapper))"
| "heap_put_array sh n h sz count [] = Some (Inr [])"
| "heap_put_array sh n h sz count (i # v) =
     (case value_json sh n h i of
        None \<Rightarrow> None
      | Some (Inl e) \<Rightarrow> Some (Inl e)
      | Some (Inr s) \<Rightarrow>
          (case heap_put_array sh n h sz (Suc count) v of
             None \<Rightarrow> None
           | Some (Inl e) \<Rightarrow> Some (Inl e)
           | Some (Inr r) \<Rightarrow> Some (Inr (s @ comma_branch (Suc count < sz) @ r))))"
| "heap_put_object sh n h sz count [] = Some (Inr [])"
| "heap_put_object sh n h sz count (i # v) =
     (case value_json sh n h (snd i) of
        None \<Rightarrow> None
      | Some (Inl e) \<Rightarrow> Some (Inl e)
      | Some (Inr s) \<Rightarrow>
          (case heap_put_object sh n h sz (Suc count) v of
             None \<Rightarrow> None
           | Some (Inl e) \<Rightarrow> Some (Inl e)
           | Some (Inr r) \<Rightarrow>
               Some (Inr (CHR 0x22 # escape (fst i) @ CHR 0x22 # '': '' @ s
                            @ comma_branch (Suc count < sz) @ r))))"

text \<open>
  The pointers in the payload of a wrapper.  The wrapper at \<open>p\<close> holds \<open>q\<close> when one of its
  elements points to \<open>q\<close>.  A value contains itself when a chain of one or more such steps
  leads from its wrapper back to it.  From a wrapper the storage is a tree (possibly with
  shared parts) when every wrapper reached from it, itself included, is on the heap and
  does not contain itself.
\<close>

fun ptrs :: "'n value_t \<Rightarrow> nat list" where
  "ptrs (array_wrapper a) = map value_ptr a"
| "ptrs (object_wrapper m) = map (\<lambda>i. value_ptr (snd i)) m"
| "ptrs _ = []"

definition holds :: "'n heap \<Rightarrow> nat \<Rightarrow> nat \<Rightarrow> bool" where
  "holds h p q \<longleftrightarrow> p < length h \<and> q \<in> set (ptrs (h ! p))"

definition contains_itself :: "'n heap \<Rightarrow> nat \<Rightarrow> bool" where
  "contains_itself h p \<longleftrightarrow> (holds h)\<^sup>+\<^sup>+ p p"

definition tree_from :: "'n heap \<Rightarrow> nat \<Rightarrow> bool" where
  "tree_from h p \<longleftrightarrow> (\<forall>q. (holds h)\<^sup>*\<^sup>* p q \<longrightarrow> q < length h \<and> \<not> contains_itself h q)"

text \<open>
  The handle \<open>v\<close> stands for the tree \<open>t\<close> when its wrapper is of the class of \<open>t\<close>, with the
  payload of \<open>t\<close>, and the elements stand for the elements of \<open>t\<close>, in order.  These are the
  values that \<open>json\<close> above renders.
\<close>

fun stands_for :: "'n heap \<Rightarrow> handle \<Rightarrow> 'n jvalue \<Rightarrow> bool"
  and array_stands_for :: "'n heap \<Rightarrow> handle list \<Rightarrow> 'n jvalue list \<Rightarrow> bool"
  and object_stands_for ::
    "'n heap \<Rightarrow> (string \<times> handle) list \<Rightarrow> (string \<times> 'n jvalue) list \<Rightarrow> bool"
where
  "stands_for h v Null =
     (value_ptr v < length h \<and> (case h ! value_ptr v of null_wrapper \<Rightarrow> True | _ \<Rightarrow> False))"
| "stands_for h v (Bool b) =
     (value_ptr v < length h \<and> (case h ! value_ptr v of bool_wrapper b' \<Rightarrow> b' = b | _ \<Rightarrow> False))"
| "stands_for h v (Number x) =
     (value_ptr v < length h \<and> (case h ! value_ptr v of number_wrapper x' \<Rightarrow> x' = x | _ \<Rightarrow> False))"
| "stands_for h v (String s) =
     (value_ptr v < length h \<and> (case h ! value_ptr v of string_wrapper s' \<Rightarrow> s' = s | _ \<Rightarrow> False))"
| "stands_for h v (Array ts) =
     (value_ptr v < length h \<and>
      (case h ! value_ptr v of array_wrapper a \<Rightarrow> array_stands_for h a ts | _ \<Rightarrow> False))"
| "stands_for h v (Object ms) =
     (value_ptr v < length h \<and>
      (case h ! value_ptr v of object_wrapper m \<Rightarrow> object_stands_for h m ms | _ \<Rightarrow> False))"
| "array_stands_for h [] [] = True"
| "array_stands_for h (i # a) (t # ts) = (stands_for h i t \<and> array_stands_for h a ts)"
| "array_stands_for h [] (t # ts) = False"
| "array_stands_for h (i # a) [] = False"
| "object_stands_for h [] [] = True"
| "object_stands_for h (i # m) (j # ms) =
     (fst i = fst j \<and> stands_for h (snd i) (snd j) \<and> object_stands_for h m ms)"
| "object_stands_for h [] (j # ms) = False"
| "object_stands_for h (i # m) [] = False"

section \<open>Evaluation\<close>

lemmas run_defs = parse_def parse_fuel_def parse_from_def string_ops_def str_deref_def
  parse_string.simps parse_number.simps detail_parse.simps parse_array.simps parse_object.simps
  skip_trailing.simps
  is_whitespace_def isdigit_def number_char_def value_of_double_def value_of_bool_def
  value_of_string_def value_of_array_def value_of_object_def value_null_def Let_def

lemmas platform_defs = show_double_def read_double_def make_decimal_def strip_zeros.simps
  digits_of_nat.simps significant_def show_exponent_def round_half_even_def nat_of_digits_def
  digit_of_def digit_char_def isdigit_def read_exponent_def Let_def

lemma string_ops_simps [simp]:
  "deref string_ops cur = str_deref cur"
  "incr string_ops cur = tl cur"
  "peek string_ops cur = (str_deref (tl cur), cur)"
  "not_end string_ops cur = (cur \<noteq> [])"
  by (simp_all add: string_ops_def)

lemma str_deref_simps [simp]: "str_deref [] = CHR 0x00" "str_deref (c # cs) = c"
  by (simp_all add: str_deref_def)

section \<open>Type safety of the accessors\<close>

text \<open>
  Claim C3.  A value constructed from a number is not a string: \<open>is_string\<close> is false,
  \<open>get_string\<close> throws the invalid-cast exception, and \<open>get_number\<close> returns the number it
  was constructed from.  For every value and each of the five variants, \<open>get_T\<close> returns
  a payload exactly when \<open>is_T\<close> is true, and throws the invalid-cast exception exactly
  when \<open>is_T\<close> is false.
\<close>

theorem type_safety:
  "is_string (value_of_double x) = False
   \<and> get_string (value_of_double x) = Inl invalid_cast
   \<and> get_number (value_of_double x) = Inr x
   \<and> (\<exists>a. get_array v = Inr a) = is_array v
   \<and> (get_array v = Inl invalid_cast) = (\<not> is_array v)
   \<and> (\<exists>b. get_bool v = Inr b) = is_bool v
   \<and> (get_bool v = Inl invalid_cast) = (\<not> is_bool v)
   \<and> (\<exists>n. get_number v = Inr n) = is_number v
   \<and> (get_number v = Inl invalid_cast) = (\<not> is_number v)
   \<and> (\<exists>m. get_object v = Inr m) = is_object v
   \<and> (get_object v = Inl invalid_cast) = (\<not> is_object v)
   \<and> (\<exists>s. get_string v = Inr s) = is_string v
   \<and> (get_string v = Inl invalid_cast) = (\<not> is_string v)"
  by (cases v) (simp_all add: value_of_double_def)

section \<open>Escaping\<close>

lemma unescape_escape_gen: "CHR 0x00 \<notin> set s \<Longrightarrow> unescape (escape s) = Some s"
  by (induction s) auto

lemma printable_not_zero: "printable c \<Longrightarrow> c \<noteq> CHR 0x00"
  by (auto simp: printable_def)

text \<open>
  Claim C4.  For every string made of printable ASCII characters only (the double quote
  and the backslash are among them), unescaping the escaped string gives the string back.
\<close>

theorem unescape_escape: "\<forall>c\<in>set s. printable c \<Longrightarrow> unescape (escape s) = Some s"
  by (rule unescape_escape_gen) (auto dest: printable_not_zero)

theorem unescape_escape_witness:
  \<open>list_all printable (''say "hi" '' @ CHR 0x5C # ''n there'')
   \<and> unescape (escape (''say "hi" '' @ CHR 0x5C # ''n there''))
       = Some (''say "hi" '' @ CHR 0x5C # ''n there'')\<close>
proof -
  have h: \<open>\<forall>c\<in>set (''say "hi" '' @ CHR 0x5C # ''n there''). printable c\<close>
    by (simp add: printable_def)
  show ?thesis using unescape_escape [OF h] by (simp add: printable_def)
qed

section \<open>Rendering\<close>

lemma put_array_join: "put_array sh (count + length v) count v = join '', '' (map (json sh) v)"
proof (induction v arbitrary: count)
  case Nil
  then show ?case by simp
next
  case (Cons i v)
  have "put_array sh (Suc count + length v) (Suc count) v = join '', '' (map (json sh) v)"
    by (rule Cons.IH)
  then show ?case by (cases v) (simp_all add: comma_branch_def)
qed

lemma put_object_step:
  "put_object sh sz count (i # v) =
     render_pair sh i @ comma_branch (Suc count < sz) @ put_object sh sz (Suc count) v"
  by (simp add: render_pair_def)

lemma put_object_join:
  "put_object sh (count + length v) count v = join '', '' (map (render_pair sh) v)"
proof (induction v arbitrary: count)
  case Nil
  then show ?case by simp
next
  case (Cons i v)
  have "put_object sh (Suc count + length v) (Suc count) v = join '', '' (map (render_pair sh) v)"
    by (rule Cons.IH)
  then show ?case
    by (cases v) (simp_all add: comma_branch_def put_object_step del: put_object.simps)
qed

lemma json_Array: "json sh (Array v) = ''['' @ join '', '' (map (json sh) v) @ '']''"
  using put_array_join [of sh 0 v] by simp

lemma json_Object: "json sh (Object v) = ''{'' @ join '', '' (map (render_pair sh) v) @ ''}''"
  using put_object_join [of sh 0 v] by simp

lemma is_map_Nil [simp]: "is_map []"
  by (simp add: is_map_def)

lemma fst_set_map_assign: "fst ` set (map_assign m k v) = insert k (fst ` set m)"
  by (induction m k v rule: map_assign.induct) auto

lemma is_map_assign: "is_map m \<Longrightarrow> is_map (map_assign m k v)"
proof (induction m k v rule: map_assign.induct)
  case (1 k v)
  then show ?case by (simp add: is_map_def)
next
  case (2 k' v' m k v)
  then show ?case
    using fst_set_map_assign [of m k v]
    by (auto simp: is_map_def)
qed

lemma is_map_object_of: "is_map (object_of kvs)"
proof -
  have "is_map m \<Longrightarrow> is_map (fold (\<lambda>i m. map_assign m (fst i) (snd i)) kvs m)" for m :: "(string \<times> 'a) list"
    by (induction kvs arbitrary: m) (simp_all add: is_map_assign)
  then show ?thesis by (simp add: object_of_def)
qed

text \<open>
  The tree rendering above is the rendering of the handles that stand for the tree: with
  enough fuel \<open>value_json\<close> returns what \<open>json\<close> gives.
\<close>

lemma array_stands_for_length: "array_stands_for h a ts \<Longrightarrow> length a = length ts"
proof (induction a arbitrary: ts)
  case Nil
  then show ?case by (cases ts) simp_all
next
  case (Cons i a)
  then show ?case by (cases ts) simp_all
qed

lemma object_stands_for_length: "object_stands_for h m ms \<Longrightarrow> length m = length ms"
proof (induction m arbitrary: ms)
  case Nil
  then show ?case by (cases ms) simp_all
next
  case (Cons i m)
  then show ?case by (cases ms) simp_all
qed

lemma value_json_stands_for:
  "stands_for h v t \<Longrightarrow> \<exists>n. \<forall>k\<ge>n. value_json sh k h v = Some (Inr (json sh t))"
  "array_stands_for h a ts \<Longrightarrow>
     \<exists>n. \<forall>k\<ge>n. \<forall>sz count. heap_put_array sh k h sz count a = Some (Inr (put_array sh sz count ts))"
  "object_stands_for h m ms \<Longrightarrow>
     \<exists>n. \<forall>k\<ge>n. \<forall>sz count. heap_put_object sh k h sz count m = Some (Inr (put_object sh sz count ms))"
proof (induction h v t and h a ts and h m ms rule: stands_for_array_stands_for_object_stands_for.induct)
  case (1 h v)
  then have "\<forall>k\<ge>Suc 0. value_json sh k h v = Some (Inr (json sh Null))"
    by (auto simp: Suc_le_eq gr0_conv_Suc split: value_t.splits)
  then show ?case by blast
next
  case (2 h v b)
  then have "\<forall>k\<ge>Suc 0. value_json sh k h v = Some (Inr (json sh (Bool b)))"
    by (auto simp: Suc_le_eq gr0_conv_Suc split: value_t.splits)
  then show ?case by blast
next
  case (3 h v x)
  then have "\<forall>k\<ge>Suc 0. value_json sh k h v = Some (Inr (json sh (Number x)))"
    by (auto simp: Suc_le_eq gr0_conv_Suc split: value_t.splits)
  then show ?case by blast
next
  case (4 h v s)
  then have "\<forall>k\<ge>Suc 0. value_json sh k h v = Some (Inr (json sh (String s)))"
    by (auto simp: Suc_le_eq gr0_conv_Suc split: value_t.splits)
  then show ?case by blast
next
  case (5 h v ts)
  from "5.prems" obtain a where lt: "value_ptr v < length h" and w: "h ! value_ptr v = array_wrapper a"
    and a: "array_stands_for h a ts"
    by (auto split: value_t.splits)
  from "5.IH" w a obtain n where
    n: "\<And>k sz count. n \<le> k \<Longrightarrow> heap_put_array sh k h sz count a = Some (Inr (put_array sh sz count ts))"
    by blast
  from a have len: "length a = length ts" by (rule array_stands_for_length)
  have "value_json sh k h v = Some (Inr (json sh (Array ts)))" if "Suc n \<le> k" for k
  proof -
    from that obtain j where k: "k = Suc j" and j: "n \<le> j" by (cases k) auto
    from n [OF j, of "length a" 0] lt w len show ?thesis unfolding k by simp
  qed
  then show ?case by blast
next
  case (6 h v ms)
  from "6.prems" obtain m where lt: "value_ptr v < length h" and w: "h ! value_ptr v = object_wrapper m"
    and m: "object_stands_for h m ms"
    by (auto split: value_t.splits)
  from "6.IH" w m obtain n where
    n: "\<And>k sz count. n \<le> k \<Longrightarrow> heap_put_object sh k h sz count m = Some (Inr (put_object sh sz count ms))"
    by blast
  from m have len: "length m = length ms" by (rule object_stands_for_length)
  have "value_json sh k h v = Some (Inr (json sh (Object ms)))" if "Suc n \<le> k" for k
  proof -
    from that obtain j where k: "k = Suc j" and j: "n \<le> j" by (cases k) auto
    from n [OF j, of "length m" 0] lt w len show ?thesis unfolding k by simp
  qed
  then show ?case by blast
next
  case (8 h i a t ts)
  from "8.prems" have p: "stands_for h i t" "array_stands_for h a ts" by simp_all
  from "8.IH"(1) p obtain n1 where
    n1: "\<And>k. n1 \<le> k \<Longrightarrow> value_json sh k h i = Some (Inr (json sh t))" by blast
  from "8.IH"(2) p obtain n2 where
    n2: "\<And>k sz count. n2 \<le> k \<Longrightarrow> heap_put_array sh k h sz count a = Some (Inr (put_array sh sz count ts))"
    by blast
  have "heap_put_array sh k h sz count (i # a) = Some (Inr (put_array sh sz count (t # ts)))"
    if "max n1 n2 \<le> k" for k sz count
    using that n1 [of k] n2 [of k sz "Suc count"] by simp
  then show ?case by blast
next
  case (12 h i m j ms)
  from "12.prems" have p: "fst i = fst j" "stands_for h (snd i) (snd j)" "object_stands_for h m ms"
    by simp_all
  from "12.IH"(1) p obtain n1 where
    n1: "\<And>k. n1 \<le> k \<Longrightarrow> value_json sh k h (snd i) = Some (Inr (json sh (snd j)))" by blast
  from "12.IH"(2) p obtain n2 where
    n2: "\<And>k sz count. n2 \<le> k \<Longrightarrow> heap_put_object sh k h sz count m = Some (Inr (put_object sh sz count ms))"
    by blast
  have "heap_put_object sh k h sz count (i # m) = Some (Inr (put_object sh sz count (j # ms)))"
    if "max n1 n2 \<le> k" for k sz count
    using that n1 [of k] n2 [of k sz "Suc count"] p(1) by simp
  then show ?case by blast
qed simp_all

text \<open>
  On the heap, the rendering of the elements decides that of the container: when every
  element renders, from some fuel on, the loop of \<^verbatim>\<open>operator<<\<close> returns the renderings joined
  by comma and space.
\<close>

lemma join_Cons_if: "join sep (x # xs) = (if xs = [] then x else x @ sep @ join sep xs)"
  by (cases xs) simp_all

lemma heap_put_array_returns:
  assumes "\<forall>i\<in>set a. \<exists>n s. \<forall>k\<ge>n. value_json sh k h i = Some (Inr s)"
  shows "\<exists>n ss. list_all2 (\<lambda>i s. \<forall>k\<ge>n. value_json sh k h i = Some (Inr s)) a ss
       \<and> (\<forall>k\<ge>n. \<forall>count. heap_put_array sh k h (count + length a) count a
              = Some (Inr (join '', '' ss)))"
  using assms
proof (induction a)
  case Nil
  then show ?case by simp
next
  case (Cons i v)
  from Cons.prems obtain n1 s where s: "\<And>k. k \<ge> n1 \<Longrightarrow> value_json sh k h i = Some (Inr s)"
    by auto
  from Cons.IH Cons.prems obtain n2 ss where
    ss: "list_all2 (\<lambda>i s. \<forall>k\<ge>n2. value_json sh k h i = Some (Inr s)) v ss"
    and r: "\<And>k count. k \<ge> n2 \<Longrightarrow> heap_put_array sh k h (count + length v) count v
              = Some (Inr (join '', '' ss))"
    by auto
  let ?n = "max n1 n2"
  from ss have len: "length v = length ss" by (rule list_all2_lengthD)
  have 1: "list_all2 (\<lambda>i s. \<forall>k\<ge>?n. value_json sh k h i = Some (Inr s)) (i # v) (s # ss)"
    using s list_all2_mono [OF ss] by simp
  have 2: "heap_put_array sh k h (count + length (i # v)) count (i # v)
              = Some (Inr (join '', '' (s # ss)))" if "k \<ge> ?n" for k count
  proof -
    from that have k: "k \<ge> n1" "k \<ge> n2" by simp_all
    have "heap_put_array sh k h (Suc count + length v) (Suc count) v = Some (Inr (join '', '' ss))"
      by (rule r [OF k(2)])
    then show ?thesis
      using s [OF k(1)] len by (simp add: join_Cons_if comma_branch_def)
  qed
  from 1 2 show ?case by blast
qed

lemma heap_put_object_returns:
  assumes "\<forall>i\<in>set m. \<exists>n s. \<forall>k\<ge>n. value_json sh k h (snd i) = Some (Inr s)"
  shows "\<exists>n ss. list_all2 (\<lambda>i s. \<forall>k\<ge>n. value_json sh k h (snd i) = Some (Inr s)) m ss
       \<and> (\<forall>k\<ge>n. \<forall>count. heap_put_object sh k h (count + length m) count m
              = Some (Inr (join '', ''
                  (map2 (\<lambda>i s. [CHR 0x22] @ escape (fst i) @ [CHR 0x22] @ '': '' @ s) m ss))))"
  using assms
proof (induction m)
  case Nil
  then show ?case by simp
next
  case (Cons i v)
  from Cons.prems obtain n1 s where
    s: "\<And>k. k \<ge> n1 \<Longrightarrow> value_json sh k h (snd i) = Some (Inr s)"
    by auto
  from Cons.IH Cons.prems obtain n2 ss where
    ss: "list_all2 (\<lambda>i s. \<forall>k\<ge>n2. value_json sh k h (snd i) = Some (Inr s)) v ss"
    and r: "\<And>k count. k \<ge> n2 \<Longrightarrow> heap_put_object sh k h (count + length v) count v
              = Some (Inr (join '', ''
                  (map2 (\<lambda>i s. [CHR 0x22] @ escape (fst i) @ [CHR 0x22] @ '': '' @ s) v ss)))"
    by auto
  let ?n = "max n1 n2"
  from ss have len: "length v = length ss" by (rule list_all2_lengthD)
  have 1: "list_all2 (\<lambda>i s. \<forall>k\<ge>?n. value_json sh k h (snd i) = Some (Inr s)) (i # v) (s # ss)"
    using s list_all2_mono [OF ss] by simp
  have 2: "heap_put_object sh k h (count + length (i # v)) count (i # v)
              = Some (Inr (join '', ''
                  (map2 (\<lambda>i s. [CHR 0x22] @ escape (fst i) @ [CHR 0x22] @ '': '' @ s) (i # v) (s # ss))))"
    if "k \<ge> ?n" for k count
  proof -
    from that have k: "k \<ge> n1" "k \<ge> n2" by simp_all
    have "heap_put_object sh k h (Suc count + length v) (Suc count) v = Some (Inr (join '', ''
                  (map2 (\<lambda>i s. [CHR 0x22] @ escape (fst i) @ [CHR 0x22] @ '': '' @ s) v ss)))"
      by (rule r [OF k(2)])
    then show ?thesis
      using s [OF k(1)] len by (auto simp: join_Cons_if comma_branch_def)
  qed
  from 1 2 show ?case by blast
qed

lemma value_json_Suc:
  assumes "value_ptr v < length h"
  shows "h ! value_ptr v = null_wrapper \<Longrightarrow> value_json sh (Suc k) h v = Some (Inr ''null'')"
    and "h ! value_ptr v = bool_wrapper b \<Longrightarrow> value_json sh (Suc k) h v = Some (Inr (bool_branch b))"
    and "h ! value_ptr v = number_wrapper x \<Longrightarrow> value_json sh (Suc k) h v = Some (Inr (sh x))"
    and "h ! value_ptr v = string_wrapper s \<Longrightarrow>
           value_json sh (Suc k) h v = Some (Inr (CHR 0x22 # escape s @ [CHR 0x22]))"
    and "h ! value_ptr v = array_wrapper a \<Longrightarrow> heap_put_array sh k h (length a) 0 a = Some (Inr r) \<Longrightarrow>
           value_json sh (Suc k) h v = Some (Inr (''['' @ r @ '']''))"
    and "h ! value_ptr v = object_wrapper m \<Longrightarrow> heap_put_object sh k h (length m) 0 m = Some (Inr r) \<Longrightarrow>
           value_json sh (Suc k) h v = Some (Inr (''{'' @ r @ ''}''))"
  using assms by simp_all

lemma returns_from_Suc:
  assumes "\<And>k v. n \<le> k \<Longrightarrow> value_ptr v = q \<Longrightarrow> value_json sh (Suc k) h v = Some (Inr s)"
  shows "\<exists>n s. \<forall>k\<ge>n. \<forall>v. value_ptr v = q \<longrightarrow> value_json sh k h v = Some (Inr s)"
proof -
  have "value_json sh k h v = Some (Inr s)" if "Suc n \<le> k" "value_ptr v = q" for k v
  proof -
    from that(1) obtain k' where "k = Suc k'" "n \<le> k'" by (cases k) auto
    with assms [of k' v] that(2) show ?thesis by simp
  qed
  then show ?thesis by blast
qed

lemma value_json_returns:
  assumes "tree_from h p"
  shows "\<exists>n s. \<forall>k\<ge>n. \<forall>v. value_ptr v = p \<longrightarrow> value_json sh k h v = Some (Inr s)"
proof -
  define R where "R = {(q, p'). (holds h)\<^sup>*\<^sup>* p p' \<and> holds h p' q}"
  have "R \<subseteq> (\<Union>p'\<in>{..<length h}. set (ptrs (h ! p'))) \<times> {..<length h}"
    by (auto simp: R_def holds_def)
  then have fin: "finite R"
    by (rule finite_subset) simp
  have tr: "(holds h)\<^sup>+\<^sup>+ y x \<and> (holds h)\<^sup>*\<^sup>* p y" if "(x, y) \<in> R\<^sup>+" for x y
    using that
  proof (induction rule: trancl_induct)
    case (base y)
    then show ?case by (auto simp: R_def)
  next
    case (step y z)
    then show ?case by (auto simp: R_def)
  qed
  have "acyclic R"
    unfolding acyclic_def using tr assms by (auto simp: tree_from_def contains_itself_def)
  with fin have "wf R" by (rule finite_acyclic_wf)
  then have main: "(holds h)\<^sup>*\<^sup>* p q \<Longrightarrow>
      \<exists>n s. \<forall>k\<ge>n. \<forall>v. value_ptr v = q \<longrightarrow> value_json sh k h v = Some (Inr s)" for q
  proof (induction q rule: wf_induct_rule)
    case (less q)
    have IH: "\<exists>n s. \<forall>k\<ge>n. \<forall>v. value_ptr v = q' \<longrightarrow> value_json sh k h v = Some (Inr s)"
      if "holds h q q'" for q'
    proof (rule less.IH)
      from that less.prems show "(q', q) \<in> R" by (simp add: R_def)
      from less.prems that show "(holds h)\<^sup>*\<^sup>* p q'" by (rule rtranclp.rtrancl_into_rtrancl)
    qed
    from assms less.prems have lt: "q < length h" by (auto simp: tree_from_def)
    show ?case
    proof (cases "h ! q")
      case null_wrapper
      with lt show ?thesis by (intro returns_from_Suc [of 0]) (simp add: value_json_Suc)
    next
      case (bool_wrapper b)
      with lt show ?thesis by (intro returns_from_Suc [of 0]) (simp add: value_json_Suc)
    next
      case (number_wrapper x)
      with lt show ?thesis by (intro returns_from_Suc [of 0]) (simp add: value_json_Suc)
    next
      case (string_wrapper s)
      with lt show ?thesis by (intro returns_from_Suc [of 0]) (simp add: value_json_Suc)
    next
      case (array_wrapper a)
      have "\<forall>i\<in>set a. \<exists>n s. \<forall>k\<ge>n. value_json sh k h i = Some (Inr s)"
      proof
        fix i assume "i \<in> set a"
        with lt array_wrapper have "holds h q (value_ptr i)" by (simp add: holds_def)
        from IH [OF this] show "\<exists>n s. \<forall>k\<ge>n. value_json sh k h i = Some (Inr s)" by blast
      qed
      from heap_put_array_returns [OF this] obtain n ss where
        r: "\<And>k count. n \<le> k \<Longrightarrow> heap_put_array sh k h (count + length a) count a
              = Some (Inr (join '', '' ss))"
        by blast
      show ?thesis
      proof (rule returns_from_Suc)
        fix k and v :: handle assume "n \<le> k" and v: "value_ptr v = q"
        from r [OF this(1), of 0]
        have "heap_put_array sh k h (length a) 0 a = Some (Inr (join '', '' ss))" by simp
        with lt array_wrapper v
        show "value_json sh (Suc k) h v = Some (Inr (''['' @ join '', '' ss @ '']''))"
          by (simp add: value_json_Suc)
      qed
    next
      case (object_wrapper m)
      have "\<forall>i\<in>set m. \<exists>n s. \<forall>k\<ge>n. value_json sh k h (snd i) = Some (Inr s)"
      proof
        fix i assume "i \<in> set m"
        with lt object_wrapper have "holds h q (value_ptr (snd i))" by (simp add: holds_def)
        from IH [OF this] show "\<exists>n s. \<forall>k\<ge>n. value_json sh k h (snd i) = Some (Inr s)" by blast
      qed
      from heap_put_object_returns [OF this] obtain n ss where
        r: "\<And>k count. n \<le> k \<Longrightarrow> heap_put_object sh k h (count + length m) count m
              = Some (Inr (join '', ''
                  (map2 (\<lambda>i s. [CHR 0x22] @ escape (fst i) @ [CHR 0x22] @ '': '' @ s) m ss)))"
        by blast
      show ?thesis
      proof (rule returns_from_Suc)
        fix k and v :: handle assume "n \<le> k" and v: "value_ptr v = q"
        from r [OF this(1), of 0]
        have "heap_put_object sh k h (length m) 0 m = Some (Inr (join '', ''
                  (map2 (\<lambda>i s. [CHR 0x22] @ escape (fst i) @ [CHR 0x22] @ '': '' @ s) m ss)))"
          by simp
        with lt object_wrapper v
        show "value_json sh (Suc k) h v = Some (Inr (''{'' @ join '', ''
                  (map2 (\<lambda>i s. [CHR 0x22] @ escape (fst i) @ [CHR 0x22] @ '': '' @ s) m ss) @ ''}''))"
          by (simp add: value_json_Suc)
      qed
    qed
  qed
  show ?thesis by (rule main) simp
qed

text \<open>
  Where the storage is a tree, every value renders: the wrappers reached are finitely
  many and none contains itself, so the relation of a wrapper to the wrappers it holds is
  well-founded.  A value that contains itself never renders, at any fuel.
\<close>

lemma tree_from_step:
  assumes "tree_from h p" and "holds h p q"
  shows "tree_from h q"
proof -
  have "(holds h)\<^sup>*\<^sup>* p r" if "(holds h)\<^sup>*\<^sup>* q r" for r
    using assms(2) that by (rule converse_rtranclp_into_rtranclp)
  with assms(1) show ?thesis by (simp add: tree_from_def)
qed

lemma tree_from_older:
  assumes "\<forall>p<length h. \<forall>q\<in>set (ptrs (h ! p)). q < p" and "p < length h"
  shows "tree_from h p"
proof -
  have 1: "b < a" if "holds h a b" for a b
    using that assms(1) by (auto simp: holds_def)
  have 2: "b < a" if "(holds h)\<^sup>+\<^sup>+ a b" for a b
    using that by (induction rule: tranclp_induct) (auto dest: 1)
  have 3: "b \<le> a" if "(holds h)\<^sup>*\<^sup>* a b" for a b
    using that by (induction rule: rtranclp_induct) (auto dest: 1)
  show ?thesis
    unfolding tree_from_def contains_itself_def using 2 3 assms(2) by fastforce
qed

lemma heap_put_array_all:
  "heap_put_array sh k h sz count a = Some (Inr r) \<Longrightarrow>
     \<forall>i\<in>set a. \<exists>s. value_json sh k h i = Some (Inr s)"
  by (induction a arbitrary: count r) (auto split: option.splits sum.splits)

lemma heap_put_object_all:
  "heap_put_object sh k h sz count m = Some (Inr r) \<Longrightarrow>
     \<forall>i\<in>set m. \<exists>s. value_json sh k h (snd i) = Some (Inr s)"
  by (induction m arbitrary: count r) (auto split: option.splits sum.splits)

lemma value_json_contains_itself:
  assumes "contains_itself h (value_ptr v)"
  shows "value_json sh k h v \<noteq> Some (Inr s)"
  using assms
proof (induction k arbitrary: v s)
  case 0
  then show ?case by simp
next
  case (Suc k)
  let ?p = "value_ptr v"
  from Suc.prems obtain c where c: "holds h ?p c" "(holds h)\<^sup>*\<^sup>* c ?p"
    unfolding contains_itself_def by (blast dest: tranclpD)
  then have "(holds h)\<^sup>+\<^sup>+ c c"
    by (meson rtranclp_into_tranclp1)
  then have cc: "contains_itself h c" by (simp add: contains_itself_def)
  from c(1) have lt: "?p < length h" and mem: "c \<in> set (ptrs (h ! ?p))"
    by (simp_all add: holds_def)
  show ?case
  proof
    assume r: "value_json sh (Suc k) h v = Some (Inr s)"
    show False
    proof (cases "h ! ?p")
      case (array_wrapper a)
      with mem obtain i where i: "i \<in> set a" "value_ptr i = c" by auto
      from r lt array_wrapper obtain r' where "heap_put_array sh k h (length a) 0 a = Some (Inr r')"
        by (auto split: option.splits sum.splits)
      from heap_put_array_all [OF this] i(1) obtain s' where "value_json sh k h i = Some (Inr s')"
        by blast
      with Suc.IH [of i s'] cc i(2) show False by simp
    next
      case (object_wrapper m)
      with mem obtain i where i: "i \<in> set m" "value_ptr (snd i) = c" by auto
      from r lt object_wrapper obtain r' where "heap_put_object sh k h (length m) 0 m = Some (Inr r')"
        by (auto split: option.splits sum.splits)
      from heap_put_object_all [OF this] i(1) obtain s' where "value_json sh k h (snd i) = Some (Inr s')"
        by blast
      with Suc.IH [of "snd i" s'] cc i(2) show False by simp
    qed (use mem in simp_all)
  qed
qed

text \<open>
  Claim C5, as amended.  Take an object value that does not contain itself, nor does any
  value reached from it.  Every entry value renders to a string, and the object renders
  as an opening brace, the entries in the iteration order of the container, each as the
  escaped key in double quotes, a colon, a space and the rendering of the entry value,
  joined by comma and space, and a closing brace.  The iteration order of a container,
  whatever the order of the assignments that filled it, is the strictly increasing order
  of its keys.  An empty object renders as \<open>{}\<close> and an empty array as \<open>[]\<close>.
\<close>

theorem object_rendering:
  "(value_get_object h v = Some (Inr m) \<and> tree_from h (value_ptr v) \<longrightarrow>
      (\<exists>n ss. list_all2 (\<lambda>i s. \<forall>k\<ge>n. value_json sh k h (snd i) = Some (Inr s)) m ss
         \<and> (\<forall>k>n. value_json sh k h v = Some (Inr (''{'' @ join '', ''
               (map2 (\<lambda>i s. [CHR 0x22] @ escape (fst i) @ [CHR 0x22] @ '': '' @ s) m ss) @ ''}'')))))
   \<and> sorted_wrt (<) (map fst (object_of kvs))
   \<and> (value_get_object h' o' = Some (Inr []) \<longrightarrow> value_json sh (Suc k') h' o' = Some (Inr ''{}''))
   \<and> (value_get_array h' a' = Some (Inr []) \<longrightarrow> value_json sh (Suc k') h' a' = Some (Inr ''[]''))"
proof -
  have 1: "\<exists>n ss. list_all2 (\<lambda>i s. \<forall>k\<ge>n. value_json sh k h (snd i) = Some (Inr s)) m ss
         \<and> (\<forall>k>n. value_json sh k h v = Some (Inr (''{'' @ join '', ''
               (map2 (\<lambda>i s. [CHR 0x22] @ escape (fst i) @ [CHR 0x22] @ '': '' @ s) m ss) @ ''}'')))"
    if g: "value_get_object h v = Some (Inr m)" and t: "tree_from h (value_ptr v)"
  proof -
    from g have lt: "value_ptr v < length h" and w: "h ! value_ptr v = object_wrapper m"
      by (auto simp: value_get_object_def split: if_splits value_t.splits)
    have "\<forall>i\<in>set m. \<exists>n s. \<forall>k\<ge>n. value_json sh k h (snd i) = Some (Inr s)"
    proof
      fix i assume "i \<in> set m"
      with lt w have "holds h (value_ptr v) (value_ptr (snd i))" by (simp add: holds_def)
      with t have "tree_from h (value_ptr (snd i))" by (rule tree_from_step)
      from value_json_returns [OF this, of sh]
      show "\<exists>n s. \<forall>k\<ge>n. value_json sh k h (snd i) = Some (Inr s)" by blast
    qed
    from heap_put_object_returns [OF this] obtain n ss where
      ss: "list_all2 (\<lambda>i s. \<forall>k\<ge>n. value_json sh k h (snd i) = Some (Inr s)) m ss"
      and r: "\<And>k count. n \<le> k \<Longrightarrow> heap_put_object sh k h (count + length m) count m
              = Some (Inr (join '', ''
                  (map2 (\<lambda>i s. [CHR 0x22] @ escape (fst i) @ [CHR 0x22] @ '': '' @ s) m ss)))"
      by blast
    have "value_json sh k h v = Some (Inr (''{'' @ join '', ''
               (map2 (\<lambda>i s. [CHR 0x22] @ escape (fst i) @ [CHR 0x22] @ '': '' @ s) m ss) @ ''}''))"
      if "n < k" for k
    proof -
      from that obtain j where k: "k = Suc j" and j: "n \<le> j" by (cases k) auto
      from r [OF j, of 0] lt w show ?thesis unfolding k by (simp add: value_json_Suc)
    qed
    with ss show ?thesis by blast
  qed
  have 2: "sorted_wrt (<) (map fst (object_of kvs))"
    using is_map_object_of [of kvs] by (simp add: is_map_def)
  have 3: "value_json sh (Suc k') h' o' = Some (Inr ''{}'')" if "value_get_object h' o' = Some (Inr [])"
    using that by (auto simp: value_get_object_def split: if_splits value_t.splits)
  have 4: "value_json sh (Suc k') h' a' = Some (Inr ''[]'')" if "value_get_array h' a' = Some (Inr [])"
    using that by (auto simp: value_get_array_def split: if_splits value_t.splits)
  from 1 2 3 4 show ?thesis by blast
qed

theorem object_rendering_witness:
  \<open>value_get_object
     [number_wrapper (Decimal False 5 0), array_wrapper [\<lparr>value_ptr = 0, value_type = JSON_NUMBER\<rparr>],
      null_wrapper,
      object_wrapper [(''a'', \<lparr>value_ptr = 1, value_type = JSON_ARRAY\<rparr>),
                      (''b'', \<lparr>value_ptr = 2, value_type = JSON_NULL\<rparr>)]]
     \<lparr>value_ptr = 3, value_type = JSON_OBJECT\<rparr>
     = Some (Inr [(''a'', \<lparr>value_ptr = 1, value_type = JSON_ARRAY\<rparr>),
                  (''b'', \<lparr>value_ptr = 2, value_type = JSON_NULL\<rparr>)])
   \<and> tree_from
     [number_wrapper (Decimal False 5 0), array_wrapper [\<lparr>value_ptr = 0, value_type = JSON_NUMBER\<rparr>],
      null_wrapper,
      object_wrapper [(''a'', \<lparr>value_ptr = 1, value_type = JSON_ARRAY\<rparr>),
                      (''b'', \<lparr>value_ptr = 2, value_type = JSON_NULL\<rparr>)]]
     (value_ptr \<lparr>value_ptr = 3, value_type = JSON_OBJECT\<rparr>)
   \<and> (\<exists>n ss. list_all2 (\<lambda>i s. \<forall>k\<ge>n. value_json show_double k
          [number_wrapper (Decimal False 5 0), array_wrapper [\<lparr>value_ptr = 0, value_type = JSON_NUMBER\<rparr>],
           null_wrapper,
           object_wrapper [(''a'', \<lparr>value_ptr = 1, value_type = JSON_ARRAY\<rparr>),
                           (''b'', \<lparr>value_ptr = 2, value_type = JSON_NULL\<rparr>)]] (snd i) = Some (Inr s))
          [(''a'', \<lparr>value_ptr = 1, value_type = JSON_ARRAY\<rparr>),
           (''b'', \<lparr>value_ptr = 2, value_type = JSON_NULL\<rparr>)] ss
        \<and> (\<forall>k>n. value_json show_double k
          [number_wrapper (Decimal False 5 0), array_wrapper [\<lparr>value_ptr = 0, value_type = JSON_NUMBER\<rparr>],
           null_wrapper,
           object_wrapper [(''a'', \<lparr>value_ptr = 1, value_type = JSON_ARRAY\<rparr>),
                           (''b'', \<lparr>value_ptr = 2, value_type = JSON_NULL\<rparr>)]]
          \<lparr>value_ptr = 3, value_type = JSON_OBJECT\<rparr>
          = Some (Inr (''{'' @ join '', ''
               (map2 (\<lambda>i s. [CHR 0x22] @ escape (fst i) @ [CHR 0x22] @ '': '' @ s)
                  [(''a'', \<lparr>value_ptr = 1, value_type = JSON_ARRAY\<rparr>),
                   (''b'', \<lparr>value_ptr = 2, value_type = JSON_NULL\<rparr>)] ss) @ ''}''))))
   \<and> value_json show_double 3
     [number_wrapper (Decimal False 5 0), array_wrapper [\<lparr>value_ptr = 0, value_type = JSON_NUMBER\<rparr>],
      null_wrapper,
      object_wrapper [(''a'', \<lparr>value_ptr = 1, value_type = JSON_ARRAY\<rparr>),
                      (''b'', \<lparr>value_ptr = 2, value_type = JSON_NULL\<rparr>)]]
     \<lparr>value_ptr = 3, value_type = JSON_OBJECT\<rparr>
     = Some (Inr ''{"a": [5], "b": null}'')
   \<and> sorted_wrt (<) (map fst (object_of [(''b'', True), (''a'', False), (''b'', False)]))
   \<and> object_of [(''b'', True), (''a'', False), (''b'', False)] = [(''a'', False), (''b'', False)]
   \<and> value_get_object ([object_wrapper [], array_wrapper []] :: decimal heap)
       \<lparr>value_ptr = 0, value_type = JSON_OBJECT\<rparr> = Some (Inr [])
   \<and> value_json show_double (Suc 0) [object_wrapper [], array_wrapper []]
       \<lparr>value_ptr = 0, value_type = JSON_OBJECT\<rparr> = Some (Inr ''{}'')
   \<and> value_get_array ([object_wrapper [], array_wrapper []] :: decimal heap)
       \<lparr>value_ptr = 1, value_type = JSON_ARRAY\<rparr> = Some (Inr [])
   \<and> value_json show_double (Suc 0) [object_wrapper [], array_wrapper []]
       \<lparr>value_ptr = 1, value_type = JSON_ARRAY\<rparr> = Some (Inr ''[]'')\<close>
proof -
  let ?h = "[number_wrapper (Decimal False 5 0), array_wrapper [\<lparr>value_ptr = 0, value_type = JSON_NUMBER\<rparr>],
      null_wrapper,
      object_wrapper [(''a'', \<lparr>value_ptr = 1, value_type = JSON_ARRAY\<rparr>),
                      (''b'', \<lparr>value_ptr = 2, value_type = JSON_NULL\<rparr>)]]"
  let ?v = "\<lparr>value_ptr = 3, value_type = JSON_OBJECT\<rparr>"
  let ?m = "[(''a'', \<lparr>value_ptr = 1, value_type = JSON_ARRAY\<rparr>),
             (''b'', \<lparr>value_ptr = 2, value_type = JSON_NULL\<rparr>)]"
  let ?e = "[object_wrapper [], array_wrapper []] :: decimal heap"
  let ?o = "\<lparr>value_ptr = 0, value_type = JSON_OBJECT\<rparr>"
  let ?a = "\<lparr>value_ptr = 1, value_type = JSON_ARRAY\<rparr>"
  let ?kvs = "[(''b'', True), (''a'', False), (''b'', False)]"
  note inst = object_rendering [of ?h ?v ?m show_double ?kvs ?e ?o 0 ?a]
  have g: "value_get_object ?h ?v = Some (Inr ?m)"
    by (simp add: value_get_object_def)
  have "\<forall>p<length ?h. \<forall>q\<in>set (ptrs (?h ! p)). q < p"
    by (simp add: less_Suc_eq eval_nat_numeral)
  then have t: "tree_from ?h (value_ptr ?v)"
    by (rule tree_from_older) simp
  have s: "show_double (Decimal False 5 0) = ''5''"
    by (simp add: platform_defs)
  have e: \<open>value_json show_double 3 ?h ?v = Some (Inr ''{"a": [5], "b": null}'')\<close>
    by (simp add: numeral_3_eq_3 s comma_branch_def)
  have c: "\<exists>n ss. list_all2 (\<lambda>i s. \<forall>k\<ge>n. value_json show_double k ?h (snd i) = Some (Inr s)) ?m ss
        \<and> (\<forall>k>n. value_json show_double k ?h ?v = Some (Inr (''{'' @ join '', ''
               (map2 (\<lambda>i s. [CHR 0x22] @ escape (fst i) @ [CHR 0x22] @ '': '' @ s) ?m ss) @ ''}'')))"
    by (rule mp [OF inst [THEN conjunct1] conjI [OF g t]])
  have k: "sorted_wrt (<) (map fst (object_of ?kvs))"
    by (rule inst [THEN conjunct2, THEN conjunct1])
  have k': "object_of ?kvs = [(''a'', False), (''b'', False)]"
    by (simp add: object_of_def)
  have go: "value_get_object ?e ?o = Some (Inr [])"
    by (simp add: value_get_object_def)
  have ga: "value_get_array ?e ?a = Some (Inr [])"
    by (simp add: value_get_array_def)
  have ro: "value_json show_double (Suc 0) ?e ?o = Some (Inr ''{}'')"
    by (rule mp [OF inst [THEN conjunct2, THEN conjunct2, THEN conjunct1] go])
  have ra: "value_json show_double (Suc 0) ?e ?a = Some (Inr ''[]'')"
    by (rule mp [OF inst [THEN conjunct2, THEN conjunct2, THEN conjunct2] ga])
  from g t c e k k' go ro ga ra show ?thesis by (intro conjI)
qed

lemma self_never:
  "value_json sh n [object_wrapper [(''self'', \<lparr>value_ptr = 0, value_type = JSON_OBJECT\<rparr>)]]
     \<lparr>value_ptr = 0, value_type = JSON_OBJECT\<rparr> = None"
  by (induction n) simp_all

text \<open>
  Claim C5 as stated fails on an object that contains itself.  After
  \<^verbatim>\<open>value o(object{}); o.get_object()["self"] = o;\<close> the entry \<open>self\<close> of the wrapper of \<open>o\<close>
  points to that wrapper, and \<^verbatim>\<open>o.json()\<close> calls itself without end: no string is returned,
  whatever the fuel.
\<close>

theorem object_rendering_counterexample:
  "value_from_object ([] :: decimal heap) [] =
     ([object_wrapper []], \<lparr>value_ptr = 0, value_type = JSON_OBJECT\<rparr>)
   \<and> value_update_object ([object_wrapper []] :: decimal heap)
       \<lparr>value_ptr = 0, value_type = JSON_OBJECT\<rparr>
       (\<lambda>m. map_assign m ''self'' (value_copy \<lparr>value_ptr = 0, value_type = JSON_OBJECT\<rparr>))
       = Some (Inr [object_wrapper [(''self'', \<lparr>value_ptr = 0, value_type = JSON_OBJECT\<rparr>)]])
   \<and> value_get_object
       ([object_wrapper [(''self'', \<lparr>value_ptr = 0, value_type = JSON_OBJECT\<rparr>)]] :: decimal heap)
       \<lparr>value_ptr = 0, value_type = JSON_OBJECT\<rparr>
       = Some (Inr [(''self'', \<lparr>value_ptr = 0, value_type = JSON_OBJECT\<rparr>)])
   \<and> (\<forall>n. value_json show_double n
          [object_wrapper [(''self'', \<lparr>value_ptr = 0, value_type = JSON_OBJECT\<rparr>)]]
          \<lparr>value_ptr = 0, value_type = JSON_OBJECT\<rparr> = None)"
  by (simp add: value_from_object_def value_update_object_def value_get_object_def value_copy_def
      self_never)

section \<open>The productions on concrete texts\<close>

text \<open>
  Claim C2.  The texts \<open>[1,]\<close>, \<open>[1 2]\<close> and \<open>truex\<close> make \<open>parse\<close> throw.  The text
  \<open>{"a":1,}\<close> does not: \<open>parse_object\<close> takes a comma after an entry and then the closing
  brace, and \<open>parse\<close> returns the object with the one entry.
\<close>

theorem strictness_trailing_comma_in_object:
  \<open>parse rd ''[1,]'' = Some (Inl (exception ''bad json''))
   \<and> parse rd ''[1 2]'' = Some (Inl (exception ''bad array''))
   \<and> parse rd ''truex'' = Some (Inl (exception ''garbage at end of input: x''))
   \<and> parse rd ''{"a":1,}'' = Some (Inr (Object [(''a'', Number (rd ''1''))]))\<close>
  by (simp add: run_defs eval_nat_numeral)

lemma parse_number_string:
  "length rest < n \<Longrightarrow>
   parse_number string_ops rd n io (c # rest) =
     Some (Inr (Number (rd (io @ c # takeWhile number_char rest)),
                drop (length (takeWhile number_char rest)) (c # rest)))"
proof (induction rest arbitrary: n io c)
  case Nil
  then obtain k where "n = Suc k" by (cases n) auto
  then show ?case by (simp add: value_of_double_def number_char_def isdigit_def)
next
  case (Cons d rest)
  then obtain k where k: "n = Suc k" "length rest < k" by (cases n) auto
  show ?case
  proof (cases "number_char d")
    case True
    with k Cons.IH [of k "io @ [c]" d] show ?thesis by (simp add: value_of_double_def)
  next
    case False
    with k show ?thesis by (simp add: value_of_double_def)
  qed
qed

text \<open>
  Claim C6.  Where a value starts with a digit or a minus sign, \<open>detail::parse\<close> runs the
  number production: it takes that character and all the characters after it that are
  digits, \<open>-\<close>, \<open>.\<close>, \<open>e\<close>, \<open>E\<close> or \<open>+\<close>, leaves the cursor on the last of them and returns
  the conversion of the collected text, whatever the text is.  So \<open>--1\<close> and \<open>1.2.3\<close> are
  parsed, to the conversions of these texts.
\<close>

theorem number_production:
  assumes "isdigit c \<or> c = CHR ''-''" and "length rest < n"
  shows "detail_parse string_ops rd (Suc n) (c # rest) =
           Some (Inr (Number (rd (c # takeWhile number_char rest)),
                      drop (length (takeWhile number_char rest)) (c # rest)))
         \<and> parse rd ''--1'' = Some (Inr (Number (rd ''--1'')))
         \<and> parse rd ''1.2.3'' = Some (Inr (Number (rd ''1.2.3'')))"
proof -
  from assms(1) have "c \<noteq> CHR 0x22" "c \<noteq> CHR ''[''" "c \<noteq> CHR ''{''"
    by (auto simp: isdigit_def)
  with assms have "detail_parse string_ops rd (Suc n) (c # rest) =
      parse_number string_ops rd n [] (c # rest)"
    by (simp add: Let_def)
  moreover have "parse rd ''--1'' = Some (Inr (Number (rd ''--1'')))"
    by (simp add: run_defs eval_nat_numeral)
  moreover have "parse rd ''1.2.3'' = Some (Inr (Number (rd ''1.2.3'')))"
    by (simp add: run_defs eval_nat_numeral)
  ultimately show ?thesis using parse_number_string [OF assms(2), of rd "[]" c] by simp
qed

theorem number_production_witness:
  "(isdigit CHR ''-'' \<or> CHR ''-'' = CHR ''-'') \<and> length ''-1,2'' < 5
   \<and> detail_parse string_ops read_double 6 ''--1,2'' = Some (Inr (Number (Decimal False 0 0), ''1,2''))
   \<and> parse read_double ''--1'' = Some (Inr (Number (Decimal False 0 0)))
   \<and> parse read_double ''1.2.3'' = Some (Inr (Number (Decimal False 12 (- 1))))"
proof -
  have h1: "isdigit CHR ''-'' \<or> CHR ''-'' = CHR ''-''" by simp
  have h2: "length ''-1,2'' < 5" by simp
  have r: "read_double ''--1'' = Decimal False 0 0" "read_double ''1.2.3'' = Decimal False 12 (- 1)"
    by (simp_all add: platform_defs)
  show ?thesis
    using number_production [OF h1 h2, of read_double] r
    by (simp add: number_char_def isdigit_def eval_nat_numeral)
qed

text \<open>
  Claim C7.  The text \<open> { "a" : [1, 2.5, true, null, "x"] } \<close> parses to an object with
  the single key \<open>a\<close>, whose value is the array of the number read from \<open>1\<close>, the number
  read from \<open>2.5\<close>, true, null and the string \<open>x\<close>.  On a platform that writes these two
  numbers as \<open>1\<close> and \<open>2.5\<close>, the value renders as \<open>{"a": [1, 2.5, true, null, "x"]}\<close>.
\<close>

theorem scenario:
  assumes "sh (rd ''1'') = ''1''" and "sh (rd ''2.5'') = ''2.5''"
  shows
    \<open>parse rd '' { "a" : [1, 2.5, true, null, "x"] } '' =
       Some (Inr (Object [(''a'',
         Array [Number (rd ''1''), Number (rd ''2.5''), Bool True, Null, String ''x''])]))
     \<and> json sh (Object [(''a'',
         Array [Number (rd ''1''), Number (rd ''2.5''), Bool True, Null, String ''x''])])
       = ''{"a": [1, 2.5, true, null, "x"]}''\<close>
proof -
  have \<open>parse rd '' { "a" : [1, 2.5, true, null, "x"] } '' =
       Some (Inr (Object [(''a'',
         Array [Number (rd ''1''), Number (rd ''2.5''), Bool True, Null, String ''x''])]))\<close>
    by (simp add: run_defs eval_nat_numeral)
  moreover have \<open>json sh (Object [(''a'',
         Array [Number (rd ''1''), Number (rd ''2.5''), Bool True, Null, String ''x''])])
       = ''{"a": [1, 2.5, true, null, "x"]}''\<close>
    using assms by (simp add: comma_branch_def bool_branch_def)
  ultimately show ?thesis by simp
qed

theorem scenario_witness:
  \<open>show_double (read_double ''1'') = ''1'' \<and> show_double (read_double ''2.5'') = ''2.5''
   \<and> parse read_double '' { "a" : [1, 2.5, true, null, "x"] } '' =
       Some (Inr (Object [(''a'',
         Array [Number (Decimal False 1 0), Number (Decimal False 25 (- 1)), Bool True, Null,
                String ''x''])]))
   \<and> json show_double (Object [(''a'',
         Array [Number (Decimal False 1 0), Number (Decimal False 25 (- 1)), Bool True, Null,
                String ''x''])])
       = ''{"a": [1, 2.5, true, null, "x"]}''\<close>
proof -
  have r: "read_double ''1'' = Decimal False 1 0" "read_double ''2.5'' = Decimal False 25 (- 1)"
    by (simp_all add: platform_defs)
  have h1: "show_double (read_double ''1'') = ''1''"
    and h2: "show_double (read_double ''2.5'') = ''2.5''"
    by (simp_all add: platform_defs)
  show ?thesis using h1 h2 scenario [of show_double read_double, OF h1 h2] r by simp
qed

section \<open>The stream cursor follows the string cursor\<close>

lemma stream_ops_simps [simp]:
  "deref stream_ops i = cur_val i"
  "incr stream_ops i = iterator_incr i"
  "peek stream_ops i = iterator_peek i"
  "not_end stream_ops i = good (istream i)"
  by (simp_all add: stream_ops_def)

lemma aligned_Nil [simp]: "aligned [] i = (\<not> good (istream i))"
  by (simp add: aligned_def)

lemma aligned_good: "aligned cs i \<Longrightarrow> good (istream i) = (cs \<noteq> [])"
  by (cases cs) (simp_all add: aligned_def)

lemma aligned_cur_val: "aligned (c # rest) i \<Longrightarrow> cur_val i = c"
  by (simp add: aligned_def)

lemma aligned_incr: "aligned cs i \<Longrightarrow> aligned (tl cs) (iterator_incr i)"
  by (cases cs; cases "tl cs")
     (auto simp: aligned_def iterator_incr_def istream_get_def good_def split: list.splits)

lemma aligned_ret_incr: "aligned_ret cs i \<Longrightarrow> aligned (tl cs) (iterator_incr i)"
  by (cases cs; cases "tl cs")
     (auto simp: aligned_ret_def aligned_def iterator_incr_def istream_get_def good_def
           split: list.splits if_splits)

lemma aligned_imp_ret: "aligned (c # rest) i \<Longrightarrow> aligned_ret (c # rest) i"
  by (simp add: aligned_def aligned_ret_def)

lemma aligned_peek_Cons: "aligned (c # d # rest) i \<Longrightarrow> iterator_peek i = (d, i)"
  by (simp add: aligned_def iterator_peek_def istream_peek_def to_char_def)

lemma aligned_peek_last:
  "aligned [c] i \<Longrightarrow> fst (iterator_peek i) = CHR 0xFF \<and> aligned_ret [c] (snd (iterator_peek i))"
  by (simp add: aligned_def aligned_ret_def iterator_peek_def istream_peek_def to_char_def good_def)

lemma aligned_init: "aligned s (iterator_init (istream_of s))"
  by (cases s) (simp_all add: aligned_def iterator_init_def istream_of_def istream_get_def good_def to_char_def)

lemma parse_string_step:
  "not_end ops cur \<Longrightarrow> \<not> (deref ops cur = CHR 0x22 \<and> \<not> esc) \<Longrightarrow>
   parse_string ops (Suc n) esc rv cur =
     parse_string ops n (deref ops cur = CHR 0x5C \<and> \<not> esc)
       (if deref ops cur = CHR 0x5C \<and> \<not> esc then rv else rv @ [deref ops cur]) (incr ops cur)"
  by (auto simp: Let_def)

lemma parse_string_sim:
  "aligned cs i \<Longrightarrow> parse_string string_ops n esc rv cs = Some (Inr (s, cs')) \<Longrightarrow>
   \<exists>i'. parse_string stream_ops n esc rv i = Some (Inr (s, i')) \<and> aligned_ret cs' i'"
proof (induction n arbitrary: esc rv cs i)
  case 0
  then show ?case by simp
next
  case (Suc n)
  show ?case
  proof (cases cs)
    case Nil
    with Suc.prems show ?thesis by simp
  next
    case (Cons c rest)
    with Suc.prems have g: "good (istream i)" "cur_val i = c"
      by (simp_all add: aligned_def)
    show ?thesis
    proof (cases "c = CHR 0x22 \<and> \<not> esc")
      case True
      with Suc.prems Cons g show ?thesis by (auto simp: aligned_imp_ret)
    next
      case False
      from Suc.prems(1) Cons have a: "aligned rest (iterator_incr i)"
        using aligned_incr [of cs i] by simp
      have 1: "parse_string string_ops (Suc n) esc rv cs =
          parse_string string_ops n (c = CHR 0x5C \<and> \<not> esc)
            (if c = CHR 0x5C \<and> \<not> esc then rv else rv @ [c]) rest"
        using False Cons by (subst parse_string_step) simp_all
      have 2: "parse_string stream_ops (Suc n) esc rv i =
          parse_string stream_ops n (c = CHR 0x5C \<and> \<not> esc)
            (if c = CHR 0x5C \<and> \<not> esc then rv else rv @ [c]) (iterator_incr i)"
        using False g by (subst parse_string_step) simp_all
      from Suc.IH [OF a] Suc.prems(2) show ?thesis
        unfolding 1 2 by blast
    qed
  qed
qed

lemma number_char_FF [simp]: "\<not> number_char (CHR 0xFF)" "\<not> number_char (CHR 0x00)"
  by (simp_all add: number_char_def isdigit_def)

lemma parse_number_sim:
  "aligned (c # rest) i \<Longrightarrow> parse_number string_ops rd n io (c # rest) = Some (Inr (v, cs')) \<Longrightarrow>
   \<exists>i'. parse_number stream_ops rd n io i = Some (Inr (v, i')) \<and> aligned_ret cs' i'"
proof (induction n arbitrary: io c rest i)
  case 0
  then show ?case by simp
next
  case (Suc n)
  from Suc.prems(1) have cv: "cur_val i = c" by (rule aligned_cur_val)
  show ?case
  proof (cases rest)
    case Nil
    with Suc.prems aligned_peek_last [of c i] cv show ?thesis
      by (cases "iterator_peek i") (auto simp: Let_def)
  next
    case (Cons d rest')
    with Suc.prems(1) have pk: "iterator_peek i = (d, i)" by (simp add: aligned_peek_Cons)
    show ?thesis
    proof (cases "number_char d")
      case False
      with Suc.prems Cons pk cv show ?thesis by (auto simp: Let_def aligned_imp_ret)
    next
      case True
      from Suc.prems(1) Cons have a: "aligned (d # rest') (iterator_incr i)"
        using aligned_incr [of "c # rest" i] by simp
      then have g: "good (istream (iterator_incr i))" by (simp add: aligned_def)
      from True Suc.prems(2) Cons
      have "parse_number string_ops rd n (io @ [c]) (d # rest') = Some (Inr (v, cs'))"
        by (simp add: Let_def)
      from Suc.IH [OF a this] True pk cv g show ?thesis by (simp add: Let_def)
    qed
  qed
qed

lemma expect_sim:
  "aligned (c # rest) i \<Longrightarrow> CHR 0x00 \<notin> set xs \<Longrightarrow> expect string_ops xs (c # rest) = (True, cs') \<Longrightarrow>
   \<exists>i'. expect stream_ops xs i = (True, i') \<and> aligned_ret cs' i'"
proof (induction xs arbitrary: c rest i)
  case Nil
  then show ?case by (auto simp: aligned_imp_ret)
next
  case (Cons x xs)
  show ?case
  proof (cases rest)
    case Nil
    with Cons.prems show ?thesis by (auto simp: Let_def)
  next
    case (Cons d rest')
    with Cons.prems(1) have a: "aligned (d # rest') (iterator_incr i)"
      using aligned_incr [of "c # rest" i] by simp
    then have cv: "cur_val (iterator_incr i) = d" by (rule aligned_cur_val)
    from Cons.prems(2,3) Cons have "d = x" "expect string_ops xs (d # rest') = (True, cs')"
      by (auto simp: Let_def split: if_splits)
    with Cons.IH [OF a] cv Cons.prems(2) show ?thesis by (simp add: Let_def)
  qed
qed


lemma detail_parse_string_Nil: "detail_parse string_ops rd n [] \<noteq> Some (Inr x)"
  by (cases n) (simp_all add: Let_def isdigit_def)

lemma aligned_next:
  assumes "aligned_ret cs1 i1 \<or> aligned cs1 i1"
  shows "aligned (tl cs1) (iterator_incr i1)"
    and "good (istream (iterator_incr i1)) = (tl cs1 \<noteq> [])"
proof -
  show "aligned (tl cs1) (iterator_incr i1)"
    using assms aligned_ret_incr aligned_incr by blast
  then show "good (istream (iterator_incr i1)) = (tl cs1 \<noteq> [])"
    by (rule aligned_good)
qed

lemma sim_parseD:
  "sim_parse rd n \<Longrightarrow> aligned cs i \<Longrightarrow> detail_parse string_ops rd n cs = Some (Inr (v, cs')) \<Longrightarrow>
   \<exists>i'. detail_parse stream_ops rd n i = Some (Inr (v, i')) \<and> aligned_ret cs' i'"
  unfolding sim_parse_def by blast

lemma sim_arrayD:
  "sim_array rd n \<Longrightarrow> aligned cs i \<Longrightarrow>
   parse_array string_ops rd n rv accept has cs = Some (Inr (a, cs')) \<Longrightarrow>
   \<exists>i'. parse_array stream_ops rd n rv accept has i = Some (Inr (a, i')) \<and> aligned_ret cs' i'"
  unfolding sim_array_def by blast

lemma sim_objectD:
  "sim_object rd n \<Longrightarrow> aligned cs i \<Longrightarrow>
   parse_object string_ops rd n rv key gk ge cs = Some (Inr (m, cs')) \<Longrightarrow>
   \<exists>i'. parse_object stream_ops rd n rv key gk ge i = Some (Inr (m, i')) \<and> aligned_ret cs' i'"
  unfolding sim_object_def by blast


lemma bind_resE:
  assumes "(case r of None \<Rightarrow> None | Some (Inl e) \<Rightarrow> Some (Inl e) | Some (Inr (v, c)) \<Rightarrow> k v c)
           = Some (Inr y)"
  obtains v c where "r = Some (Inr (v, c))" and "k v c = Some (Inr y)"
  using assms by (auto split: option.splits sum.splits)

lemma bind_res_Some:
  "r = Some (Inr (v, c)) \<Longrightarrow>
   (case r of None \<Rightarrow> None | Some (Inl e) \<Rightarrow> Some (Inl e) | Some (Inr (v, c)) \<Rightarrow> k v c) = k v c"
  by simp

lemma parse_array_ws:
  "is_whitespace (deref ops cur) \<Longrightarrow>
   parse_array ops rd (Suc n) rv accept has cur =
     (let cur' = incr ops cur
      in if not_end ops cur' then parse_array ops rd n rv accept has cur'
         else Some (Inl (exception ''bad array'')))"
  by simp

lemma parse_array_close:
  "\<not> is_whitespace (deref ops cur) \<Longrightarrow> deref ops cur = CHR '']'' \<Longrightarrow> has \<noteq> accept \<Longrightarrow>
   parse_array ops rd (Suc n) rv accept has cur = Some (Inr (rv, cur))"
  by simp

lemma parse_array_elem:
  "\<not> is_whitespace (deref ops cur) \<Longrightarrow> \<not> (deref ops cur = CHR '']'' \<and> has \<noteq> accept) \<Longrightarrow> accept \<Longrightarrow>
   parse_array ops rd (Suc n) rv accept has cur =
     (case detail_parse ops rd n cur of
        None \<Rightarrow> None
      | Some (Inl e) \<Rightarrow> Some (Inl e)
      | Some (Inr (v, cur1)) \<Rightarrow>
          (let cur' = incr ops cur1
           in if not_end ops cur' then parse_array ops rd n (rv @ [v]) False True cur'
              else Some (Inl (exception ''bad array''))))"
  by auto

lemma parse_array_comma:
  "\<not> accept \<Longrightarrow> deref ops cur = CHR '','' \<Longrightarrow>
   parse_array ops rd (Suc n) rv accept has cur =
     (let cur' = incr ops cur
      in if not_end ops cur' then parse_array ops rd n rv True has cur'
         else Some (Inl (exception ''bad array'')))"
  by (auto simp: is_whitespace_def)

lemma parse_array_bad:
  "\<not> is_whitespace (deref ops cur) \<Longrightarrow> \<not> (deref ops cur = CHR '']'' \<and> has \<noteq> accept) \<Longrightarrow>
   \<not> accept \<Longrightarrow> deref ops cur \<noteq> CHR '','' \<Longrightarrow>
   parse_array ops rd (Suc n) rv accept has cur = Some (Inl (exception ''bad array''))"
  by auto

lemma array_next_sim:
  assumes IH: "sim_array rd n"
    and al: "aligned_ret cs1 i1 \<or> aligned cs1 i1"
    and run: "(let cur' = incr string_ops cs1
               in if not_end string_ops cur' then parse_array string_ops rd n rv accept has cur'
                  else Some (Inl e)) = Some (Inr (a, cs'))"
  shows "\<exists>i'. (let cur' = incr stream_ops i1
               in if not_end stream_ops cur' then parse_array stream_ops rd n rv accept has cur'
                  else Some (Inl e)) = Some (Inr (a, i')) \<and> aligned_ret cs' i'"
proof -
  from run have ne: "tl cs1 \<noteq> []"
    and r: "parse_array string_ops rd n rv accept has (tl cs1) = Some (Inr (a, cs'))"
    by (simp_all add: Let_def split: if_splits)
  from aligned_next [OF al] ne sim_arrayD [OF IH _ r] show ?thesis by (simp add: Let_def)
qed

lemma parse_array_sim_step:
  assumes IHp: "sim_parse rd n" and IHa: "sim_array rd n"
  shows "sim_array rd (Suc n)"
  unfolding sim_array_def
proof (intro allI impI)
  fix rv accept has cs i a cs'
  assume al: "aligned cs i"
    and run: "parse_array string_ops rd (Suc n) rv accept has cs = Some (Inr (a, cs'))"
  show "\<exists>i'. parse_array stream_ops rd (Suc n) rv accept has i = Some (Inr (a, i')) \<and> aligned_ret cs' i'"
  proof (cases cs)
    case Nil
    with run detail_parse_string_Nil [of rd n] show ?thesis
      by (auto simp: is_whitespace_def split: if_splits option.splits sum.splits)
  next
    case (Cons c rest)
    with al have cv: "deref stream_ops i = c" "deref string_ops cs = c" by (simp_all add: aligned_def)
    have al': "aligned_ret cs i \<or> aligned cs i" using al by simp
    consider (ws) "is_whitespace c"
      | (close) "\<not> is_whitespace c" "c = CHR '']''" "has \<noteq> accept"
      | (elem) "\<not> is_whitespace c" "\<not> (c = CHR '']'' \<and> has \<noteq> accept)" "accept"
      | (comma) "\<not> is_whitespace c" "\<not> (c = CHR '']'' \<and> has \<noteq> accept)" "\<not> accept" "c = CHR '',''"
      | (bad) "\<not> is_whitespace c" "\<not> (c = CHR '']'' \<and> has \<noteq> accept)" "\<not> accept" "c \<noteq> CHR '',''"
      by blast
    then show ?thesis
    proof cases
      case ws
      with cv have 1: "is_whitespace (deref string_ops cs)" "is_whitespace (deref stream_ops i)"
        by simp_all
      from run show ?thesis
        unfolding parse_array_ws [OF 1(1)] parse_array_ws [OF 1(2)]
        by (rule array_next_sim [OF IHa al'])
    next
      case close
      with cv have "parse_array stream_ops rd (Suc n) rv accept has i = Some (Inr (rv, i))"
        "parse_array string_ops rd (Suc n) rv accept has cs = Some (Inr (rv, cs))"
        by (simp_all add: parse_array_close)
      with run al Cons show ?thesis by (auto simp: aligned_imp_ret)
    next
      case elem
      with cv have 1: "\<not> is_whitespace (deref string_ops cs)"
        "\<not> (deref string_ops cs = CHR '']'' \<and> has \<noteq> accept)"
        and 2: "\<not> is_whitespace (deref stream_ops i)"
        "\<not> (deref stream_ops i = CHR '']'' \<and> has \<noteq> accept)"
        by simp_all
      note e1 = parse_array_elem [OF 1 elem(3)] and e2 = parse_array_elem [OF 2 elem(3)]
      from run [unfolded e1] obtain v cs1 where
        p: "detail_parse string_ops rd n cs = Some (Inr (v, cs1))"
        and r: "(let cur' = incr string_ops cs1
               in if not_end string_ops cur'
                  then parse_array string_ops rd n (rv @ [v]) False True cur'
                  else Some (Inl (exception ''bad array''))) = Some (Inr (a, cs'))"
        by (rule bind_resE)
      from sim_parseD [OF IHp al p] obtain i1 where
        p': "detail_parse stream_ops rd n i = Some (Inr (v, i1))" and a1: "aligned_ret cs1 i1"
        by blast
      from a1 have "aligned_ret cs1 i1 \<or> aligned cs1 i1" by simp
      from array_next_sim [OF IHa this r] show ?thesis
        unfolding e2 bind_res_Some [OF p'] .
    next
      case comma
      with cv have 1: "deref string_ops cs = CHR '',''" "deref stream_ops i = CHR '',''"
        by simp_all
      from run show ?thesis
        unfolding parse_array_comma [OF comma(3) 1(1)] parse_array_comma [OF comma(3) 1(2)]
        by (rule array_next_sim [OF IHa al'])
    next
      case bad
      with cv have 1: "\<not> is_whitespace (deref string_ops cs)"
        "\<not> (deref string_ops cs = CHR '']'' \<and> has \<noteq> accept)"
        "deref string_ops cs \<noteq> CHR '',''"
        by simp_all
      from run show ?thesis
        unfolding parse_array_bad [OF 1(1,2) bad(3) 1(3)] by simp
    qed
  qed
qed


lemma parse_object_close:
  "deref ops cur = CHR ''}'' \<Longrightarrow> \<not> gk \<Longrightarrow>
   parse_object ops rd (Suc n) rv key gk ge cur = Some (Inr (rv, cur))"
  by simp

lemma parse_object_ws:
  "\<not> (deref ops cur = CHR ''}'' \<and> \<not> gk) \<Longrightarrow> is_whitespace (deref ops cur) \<Longrightarrow>
   parse_object ops rd (Suc n) rv key gk ge cur =
     (let cur' = incr ops cur
      in if not_end ops cur' then parse_object ops rd n rv key gk ge cur'
         else Some (Inl (exception ''bad object'')))"
  by auto

lemma parse_object_key:
  "\<not> (deref ops cur = CHR ''}'' \<and> \<not> gk) \<Longrightarrow> deref ops cur = CHR 0x22 \<Longrightarrow>
   parse_object ops rd (Suc n) rv key gk ge cur =
     (case parse_string ops n False [] (incr ops cur) of
        None \<Rightarrow> None
      | Some (Inl e) \<Rightarrow> Some (Inl e)
      | Some (Inr (k, cur1)) \<Rightarrow>
          (let cur' = incr ops cur1
           in if not_end ops cur' then parse_object ops rd n rv k True ge cur'
              else Some (Inl (exception ''bad object''))))"
  by (auto simp: is_whitespace_def)

lemma parse_object_value:
  "gk \<Longrightarrow> deref ops cur = CHR '':'' \<Longrightarrow>
   parse_object ops rd (Suc n) rv key gk ge cur =
     (case detail_parse ops rd n (incr ops cur) of
        None \<Rightarrow> None
      | Some (Inl e) \<Rightarrow> Some (Inl e)
      | Some (Inr (v, cur1)) \<Rightarrow>
          (let cur' = incr ops cur1
           in if not_end ops cur' then parse_object ops rd n (map_assign rv key v) key False True cur'
              else Some (Inl (exception ''bad object''))))"
  by (auto simp: is_whitespace_def)

lemma parse_object_comma:
  "ge \<Longrightarrow> \<not> gk \<Longrightarrow> deref ops cur = CHR '','' \<Longrightarrow>
   parse_object ops rd (Suc n) rv key gk ge cur =
     (let cur' = incr ops cur
      in if not_end ops cur' then parse_object ops rd n rv key gk ge cur'
         else Some (Inl (exception ''bad object'')))"
  by (auto simp: is_whitespace_def Let_def)

lemma parse_object_bad:
  "\<not> (deref ops cur = CHR ''}'' \<and> \<not> gk) \<Longrightarrow> \<not> is_whitespace (deref ops cur) \<Longrightarrow>
   deref ops cur \<noteq> CHR 0x22 \<Longrightarrow> \<not> (gk \<and> deref ops cur = CHR '':'') \<Longrightarrow>
   \<not> (ge \<and> \<not> gk \<and> deref ops cur = CHR '','') \<Longrightarrow>
   parse_object ops rd (Suc n) rv key gk ge cur = Some (Inl (exception ''bad object''))"
  by auto

lemma object_next_sim:
  assumes IH: "sim_object rd n"
    and al: "aligned_ret cs1 i1 \<or> aligned cs1 i1"
    and run: "(let cur' = incr string_ops cs1
               in if not_end string_ops cur' then parse_object string_ops rd n rv key gk ge cur'
                  else Some (Inl e)) = Some (Inr (m, cs'))"
  shows "\<exists>i'. (let cur' = incr stream_ops i1
               in if not_end stream_ops cur' then parse_object stream_ops rd n rv key gk ge cur'
                  else Some (Inl e)) = Some (Inr (m, i')) \<and> aligned_ret cs' i'"
proof -
  from run have ne: "tl cs1 \<noteq> []"
    and r: "parse_object string_ops rd n rv key gk ge (tl cs1) = Some (Inr (m, cs'))"
    by (simp_all add: Let_def split: if_splits)
  from aligned_next [OF al] ne sim_objectD [OF IH _ r] show ?thesis by (simp add: Let_def)
qed

lemma parse_object_sim_step:
  assumes IHp: "sim_parse rd n" and IHo: "sim_object rd n"
  shows "sim_object rd (Suc n)"
  unfolding sim_object_def
proof (intro allI impI)
  fix rv key gk ge cs i m cs'
  assume al: "aligned cs i"
    and run: "parse_object string_ops rd (Suc n) rv key gk ge cs = Some (Inr (m, cs'))"
  show "\<exists>i'. parse_object stream_ops rd (Suc n) rv key gk ge i = Some (Inr (m, i')) \<and> aligned_ret cs' i'"
  proof (cases cs)
    case Nil
    with run show ?thesis by (simp add: is_whitespace_def)
  next
    case (Cons c rest)
    with al have cv: "deref stream_ops i = c" "deref string_ops cs = c" by (simp_all add: aligned_def)
    have al': "aligned_ret cs i \<or> aligned cs i" using al by simp
    have aln: "aligned (incr string_ops cs) (incr stream_ops i)"
      using aligned_incr [OF al] by simp
    consider (close) "c = CHR ''}''" "\<not> gk"
      | (ws) "\<not> (c = CHR ''}'' \<and> \<not> gk)" "is_whitespace c"
      | (key) "\<not> (c = CHR ''}'' \<and> \<not> gk)" "c = CHR 0x22"
      | (val) "gk" "c = CHR '':''"
      | (comma) "ge" "\<not> gk" "c = CHR '',''"
      | (bad) "\<not> (c = CHR ''}'' \<and> \<not> gk)" "\<not> is_whitespace c" "c \<noteq> CHR 0x22"
          "\<not> (gk \<and> c = CHR '':'')" "\<not> (ge \<and> \<not> gk \<and> c = CHR '','')"
      by blast
    then show ?thesis
    proof cases
      case close
      with cv have "parse_object stream_ops rd (Suc n) rv key gk ge i = Some (Inr (rv, i))"
        "parse_object string_ops rd (Suc n) rv key gk ge cs = Some (Inr (rv, cs))"
        by (simp_all add: parse_object_close)
      with run al Cons show ?thesis by (auto simp: aligned_imp_ret)
    next
      case ws
      with cv have 1: "\<not> (deref string_ops cs = CHR ''}'' \<and> \<not> gk)" "is_whitespace (deref string_ops cs)"
        and 2: "\<not> (deref stream_ops i = CHR ''}'' \<and> \<not> gk)" "is_whitespace (deref stream_ops i)"
        by simp_all
      from run show ?thesis
        unfolding parse_object_ws [OF 1] parse_object_ws [OF 2]
        by (rule object_next_sim [OF IHo al'])
    next
      case key
      with cv have 1: "\<not> (deref string_ops cs = CHR ''}'' \<and> \<not> gk)" "deref string_ops cs = CHR 0x22"
        and 2: "\<not> (deref stream_ops i = CHR ''}'' \<and> \<not> gk)" "deref stream_ops i = CHR 0x22"
        by simp_all
      note e1 = parse_object_key [OF 1] and e2 = parse_object_key [OF 2]
      from run [unfolded e1] obtain k cs1 where
        p: "parse_string string_ops n False [] (incr string_ops cs) = Some (Inr (k, cs1))"
        and r: "(let cur' = incr string_ops cs1
               in if not_end string_ops cur'
                  then parse_object string_ops rd n rv k True ge cur'
                  else Some (Inl (exception ''bad object''))) = Some (Inr (m, cs'))"
        by (rule bind_resE)
      from parse_string_sim [OF aln p] obtain i1 where
        p': "parse_string stream_ops n False [] (incr stream_ops i) = Some (Inr (k, i1))"
        and a1: "aligned_ret cs1 i1"
        by blast
      from a1 have "aligned_ret cs1 i1 \<or> aligned cs1 i1" by simp
      from object_next_sim [OF IHo this r] show ?thesis
        unfolding e2 bind_res_Some [OF p'] .
    next
      case val
      with cv have 1: "deref string_ops cs = CHR '':''" and 2: "deref stream_ops i = CHR '':''"
        by simp_all
      note e1 = parse_object_value [OF val(1) 1] and e2 = parse_object_value [OF val(1) 2]
      from run [unfolded e1] obtain v cs1 where
        p: "detail_parse string_ops rd n (incr string_ops cs) = Some (Inr (v, cs1))"
        and r: "(let cur' = incr string_ops cs1
               in if not_end string_ops cur'
                  then parse_object string_ops rd n (map_assign rv key v) key False True cur'
                  else Some (Inl (exception ''bad object''))) = Some (Inr (m, cs'))"
        by (rule bind_resE)
      from sim_parseD [OF IHp aln p] obtain i1 where
        p': "detail_parse stream_ops rd n (incr stream_ops i) = Some (Inr (v, i1))"
        and a1: "aligned_ret cs1 i1"
        by blast
      from a1 have "aligned_ret cs1 i1 \<or> aligned cs1 i1" by simp
      from object_next_sim [OF IHo this r] show ?thesis
        unfolding e2 bind_res_Some [OF p'] .
    next
      case comma
      with cv have 1: "deref string_ops cs = CHR '',''" "deref stream_ops i = CHR '',''"
        by simp_all
      from run show ?thesis
        unfolding parse_object_comma [OF comma(1,2) 1(1)] parse_object_comma [OF comma(1,2) 1(2)]
        by (rule object_next_sim [OF IHo al'])
    next
      case bad
      with cv have 1: "\<not> (deref string_ops cs = CHR ''}'' \<and> \<not> gk)"
        "\<not> is_whitespace (deref string_ops cs)" "deref string_ops cs \<noteq> CHR 0x22"
        "\<not> (gk \<and> deref string_ops cs = CHR '':'')"
        "\<not> (ge \<and> \<not> gk \<and> deref string_ops cs = CHR '','')"
        by simp_all
      from run show ?thesis
        unfolding parse_object_bad [OF 1] by simp
    qed
  qed
qed

lemma detail_parse_quote:
  "deref ops cur = CHR 0x22 \<Longrightarrow>
   detail_parse ops rd (Suc n) cur =
     (case parse_string ops n False [] (incr ops cur) of
        None \<Rightarrow> None
      | Some (Inl e) \<Rightarrow> Some (Inl e)
      | Some (Inr (s, cur')) \<Rightarrow> Some (Inr (value_of_string s, cur')))"
  by (simp add: Let_def)

lemma detail_parse_array:
  "deref ops cur = CHR ''['' \<Longrightarrow>
   detail_parse ops rd (Suc n) cur =
     (case parse_array ops rd n [] True False (incr ops cur) of
        None \<Rightarrow> None
      | Some (Inl e) \<Rightarrow> Some (Inl e)
      | Some (Inr (a, cur')) \<Rightarrow> Some (Inr (value_of_array a, cur')))"
  by (simp add: Let_def)

lemma detail_parse_object:
  "deref ops cur = CHR ''{'' \<Longrightarrow>
   detail_parse ops rd (Suc n) cur =
     (case parse_object ops rd n [] [] False False (incr ops cur) of
        None \<Rightarrow> None
      | Some (Inl e) \<Rightarrow> Some (Inl e)
      | Some (Inr (m, cur')) \<Rightarrow> Some (Inr (value_of_object m, cur')))"
  by (simp add: Let_def)

lemma detail_parse_number:
  assumes "isdigit (deref ops cur) \<or> deref ops cur = CHR ''-''"
  shows "detail_parse ops rd (Suc n) cur = parse_number ops rd n [] cur"
proof -
  from assms have "deref ops cur \<noteq> CHR 0x22" "deref ops cur \<noteq> CHR ''[''"
    "deref ops cur \<noteq> CHR ''{''"
    by (auto simp: isdigit_def)
  with assms show ?thesis by (simp add: Let_def)
qed

lemma detail_parse_null:
  "deref ops cur = CHR ''n'' \<Longrightarrow>
   detail_parse ops rd (Suc n) cur =
     (case expect ops ''ull'' cur of
        (True, cur') \<Rightarrow> Some (Inr (value_null, cur'))
      | (False, cur') \<Rightarrow> Some (Inl (exception ''bad json: null'')))"
  by (simp add: Let_def isdigit_def)

lemma detail_parse_true:
  "deref ops cur = CHR ''t'' \<Longrightarrow>
   detail_parse ops rd (Suc n) cur =
     (case expect ops ''rue'' cur of
        (True, cur') \<Rightarrow> Some (Inr (value_of_bool True, cur'))
      | (False, cur') \<Rightarrow> Some (Inl (exception (''bad json: '' @ [deref ops cur']))))"
  by (simp add: Let_def isdigit_def)

lemma detail_parse_false:
  "deref ops cur = CHR ''f'' \<Longrightarrow>
   detail_parse ops rd (Suc n) cur =
     (case expect ops ''alse'' cur of
        (True, cur') \<Rightarrow> Some (Inr (value_of_bool False, cur'))
      | (False, cur') \<Rightarrow> Some (Inl (exception ''bad json: false'')))"
  by (simp add: Let_def isdigit_def)

lemma is_whitespace_cases:
  "is_whitespace c \<Longrightarrow> c = CHR '' '' \<or> c = CHR 0x0D \<or> c = CHR 0x0A \<or> c = CHR 0x09"
  by (simp add: is_whitespace_def)

lemma whitespace_not_start:
  assumes "is_whitespace c"
  shows "c \<noteq> CHR 0x22" "c \<noteq> CHR ''[''" "c \<noteq> CHR ''{''" "\<not> isdigit c" "c \<noteq> CHR ''-''"
    "c \<noteq> CHR ''n''" "c \<noteq> CHR ''t''" "c \<noteq> CHR ''f''"
  using is_whitespace_cases [OF assms] by (auto simp: isdigit_def)

lemma detail_parse_ws:
  assumes "is_whitespace (deref ops cur)"
  shows "detail_parse ops rd (Suc n) cur =
     (let cur' = incr ops cur
      in if not_end ops cur' then detail_parse ops rd n cur'
         else Some (Inl (exception ''bad json'')))"
proof -
  note w = whitespace_not_start [OF assms]
  from is_whitespace_cases [OF assms] w show ?thesis
    by (simp add: Let_def)
qed

lemma detail_parse_bad:
  "\<not> value_start (deref ops cur) \<Longrightarrow> \<not> is_whitespace (deref ops cur) \<Longrightarrow>
   detail_parse ops rd (Suc n) cur = Some (Inl (exception ''bad json''))"
  by (simp add: Let_def is_whitespace_def value_start_def)

lemma expect_resE:
  assumes "(case expect ops xs cur of (True, cur') \<Rightarrow> Some (Inr (x, cur')) | (False, cur') \<Rightarrow> Some (Inl (e cur')))
           = Some (Inr (v, cs'))"
  obtains "expect ops xs cur = (True, cs')" and "v = x"
  using assms by (auto split: prod.splits bool.splits)

lemma literal_sim:
  assumes al: "aligned (c # rest) i" and z: "CHR 0x00 \<notin> set xs"
    and run: "(case expect string_ops xs (c # rest) of
                 (True, cur') \<Rightarrow> Some (Inr (x, cur'))
               | (False, cur') \<Rightarrow> Some (Inl (e cur'))) = Some (Inr (v, cs'))"
  shows "\<exists>i'. (case expect stream_ops xs i of
                 (True, cur') \<Rightarrow> Some (Inr (x, cur'))
               | (False, cur') \<Rightarrow> Some (Inl (e' cur'))) = Some (Inr (v, i')) \<and> aligned_ret cs' i'"
proof -
  from run have 1: "expect string_ops xs (c # rest) = (True, cs')" and 2: "v = x"
    by (auto split: prod.splits bool.splits)
  from expect_sim [OF al z 1] 2 show ?thesis by auto
qed

lemma map_res_sim:
  assumes run: "(case r of None \<Rightarrow> None | Some (Inl e) \<Rightarrow> Some (Inl e)
                 | Some (Inr (x, cur')) \<Rightarrow> Some (Inr (f x, cur'))) = Some (Inr (v, cs'))"
    and sim: "\<And>x. r = Some (Inr (x, cs')) \<Longrightarrow> \<exists>i'. r' = Some (Inr (x, i')) \<and> aligned_ret cs' i'"
  shows "\<exists>i'. (case r' of None \<Rightarrow> None | Some (Inl e) \<Rightarrow> Some (Inl e)
                 | Some (Inr (x, cur')) \<Rightarrow> Some (Inr (f x, cur'))) = Some (Inr (v, i')) \<and> aligned_ret cs' i'"
proof -
  from run obtain x where 1: "r = Some (Inr (x, cs'))" and 2: "v = f x"
    by (auto split: option.splits sum.splits)
  from sim [OF 1] 2 show ?thesis by auto
qed


lemma detail_parse_sim_step:
  assumes IHp: "sim_parse rd n" and IHa: "sim_array rd n" and IHo: "sim_object rd n"
  shows "sim_parse rd (Suc n)"
  unfolding sim_parse_def
proof (intro allI impI)
  fix cs i v cs'
  assume al: "aligned cs i"
    and run: "detail_parse string_ops rd (Suc n) cs = Some (Inr (v, cs'))"
  show "\<exists>i'. detail_parse stream_ops rd (Suc n) i = Some (Inr (v, i')) \<and> aligned_ret cs' i'"
  proof (cases cs)
    case Nil
    with run detail_parse_string_Nil [of rd "Suc n"] show ?thesis by blast
  next
    case (Cons c rest)
    with al have cv: "deref stream_ops i = c" "deref string_ops cs = c" by (simp_all add: aligned_def)
    have al': "aligned_ret cs i \<or> aligned cs i" using al by simp
    have aln: "aligned (incr string_ops cs) (incr stream_ops i)"
      using aligned_incr [OF al] by simp
    have alc: "aligned (c # rest) i" using al Cons by simp
    consider (quote) "c = CHR 0x22" | (arr) "c = CHR ''[''" | (obj) "c = CHR ''{''"
      | (num) "isdigit c \<or> c = CHR ''-''" | (null) "c = CHR ''n''" | (true) "c = CHR ''t''"
      | (false) "c = CHR ''f''" | (ws) "is_whitespace c"
      | (bad) "\<not> value_start c" "\<not> is_whitespace c"
      unfolding value_start_def by blast
    then show ?thesis
    proof cases
      case quote
      with cv have 1: "deref string_ops cs = CHR 0x22" and 2: "deref stream_ops i = CHR 0x22"
        by simp_all
      from run show ?thesis
        unfolding detail_parse_quote [OF 1] detail_parse_quote [OF 2]
        by (rule map_res_sim) (rule parse_string_sim [OF aln])
    next
      case arr
      with cv have 1: "deref string_ops cs = CHR ''[''" and 2: "deref stream_ops i = CHR ''[''"
        by simp_all
      from run show ?thesis
        unfolding detail_parse_array [OF 1] detail_parse_array [OF 2]
        by (rule map_res_sim) (rule sim_arrayD [OF IHa aln])
    next
      case obj
      with cv have 1: "deref string_ops cs = CHR ''{''" and 2: "deref stream_ops i = CHR ''{''"
        by simp_all
      from run show ?thesis
        unfolding detail_parse_object [OF 1] detail_parse_object [OF 2]
        by (rule map_res_sim) (rule sim_objectD [OF IHo aln])
    next
      case num
      with cv have 1: "isdigit (deref string_ops cs) \<or> deref string_ops cs = CHR ''-''"
        and 2: "isdigit (deref stream_ops i) \<or> deref stream_ops i = CHR ''-''"
        by simp_all
      from run [unfolded detail_parse_number [OF 1], unfolded Cons] show ?thesis
        unfolding detail_parse_number [OF 2]
        by (rule parse_number_sim [OF alc])
    next
      case null
      with cv have 1: "deref string_ops cs = CHR ''n''" and 2: "deref stream_ops i = CHR ''n''"
        by simp_all
      from run [unfolded detail_parse_null [OF 1], unfolded Cons] show ?thesis
        unfolding detail_parse_null [OF 2]
        by (rule literal_sim [OF alc, rotated]) simp
    next
      case true
      with cv have 1: "deref string_ops cs = CHR ''t''" and 2: "deref stream_ops i = CHR ''t''"
        by simp_all
      from run [unfolded detail_parse_true [OF 1], unfolded Cons] show ?thesis
        unfolding detail_parse_true [OF 2]
        by (rule literal_sim [OF alc, rotated]) simp
    next
      case false
      with cv have 1: "deref string_ops cs = CHR ''f''" and 2: "deref stream_ops i = CHR ''f''"
        by simp_all
      from run [unfolded detail_parse_false [OF 1], unfolded Cons] show ?thesis
        unfolding detail_parse_false [OF 2]
        by (rule literal_sim [OF alc, rotated]) simp
    next
      case ws
      with cv have 1: "is_whitespace (deref string_ops cs)" and 2: "is_whitespace (deref stream_ops i)"
        by simp_all
      from run have r: "(let cur' = incr string_ops cs
          in if not_end string_ops cur' then detail_parse string_ops rd n cur'
             else Some (Inl (exception ''bad json''))) = Some (Inr (v, cs'))"
        unfolding detail_parse_ws [OF 1] .
      then have ne: "tl cs \<noteq> []"
        and r': "detail_parse string_ops rd n (tl cs) = Some (Inr (v, cs'))"
        by (simp_all add: Let_def split: if_splits)
      from aligned_next [OF al'] ne sim_parseD [OF IHp _ r'] show ?thesis
        unfolding detail_parse_ws [OF 2] by (simp add: Let_def)
    next
      case bad
      with cv have 1: "\<not> value_start (deref string_ops cs)" "\<not> is_whitespace (deref string_ops cs)"
        by simp_all
      from run show ?thesis unfolding detail_parse_bad [OF 1] by simp
    qed
  qed
qed

lemma sim_all: "sim_parse rd n \<and> sim_array rd n \<and> sim_object rd n"
proof (induction n)
  case 0
  show ?case by (simp add: sim_parse_def sim_array_def sim_object_def)
next
  case (Suc n)
  then show ?case
    using detail_parse_sim_step parse_array_sim_step parse_object_sim_step by blast
qed

lemma skip_trailing_sim:
  "aligned_ret cs i \<or> aligned cs i \<Longrightarrow> skip_trailing string_ops n cs = Some (Inr r) \<Longrightarrow>
   \<exists>r'. skip_trailing stream_ops n i = Some (Inr r')"
proof (induction n arbitrary: cs i r)
  case 0
  then show ?case by simp
next
  case (Suc n)
  note a = aligned_next [OF Suc.prems(1)]
  show ?case
  proof (cases "tl cs")
    case Nil
    with a show ?thesis by (simp add: Let_def)
  next
    case (Cons d rest)
    with a(1) have cv: "cur_val (iterator_incr i) = d" by (simp add: aligned_def)
    from Suc.prems(2) Cons have ws: "is_whitespace d"
      and r: "skip_trailing string_ops n (tl cs) = Some (Inr r)"
      by (auto simp: Let_def split: if_splits)
    from a(1) have "aligned_ret (tl cs) (iterator_incr i) \<or> aligned (tl cs) (iterator_incr i)"
      by simp
    from Suc.IH [OF this r] a(2) Cons cv ws show ?thesis by (simp add: Let_def)
  qed
qed

lemma parse_istream_sim:
  assumes "parse_fuel rd n t = Some (Inr v)"
  shows "parse_istream rd n (istream_of t) = Some (Inr v)"
proof -
  from assms obtain cs' r where
    p: "detail_parse string_ops rd n t = Some (Inr (v, cs'))"
    and s: "skip_trailing string_ops n cs' = Some (Inr r)"
    by (auto simp: parse_fuel_def parse_from_def split: option.splits sum.splits)
  from sim_all [of rd n] have "sim_parse rd n" by simp
  from sim_parseD [OF this aligned_init p] obtain i' where
    p': "detail_parse stream_ops rd n (iterator_init (istream_of t)) = Some (Inr (v, i'))"
    and a: "aligned_ret cs' i'"
    by blast
  from a have "aligned_ret cs' i' \<or> aligned cs' i'" by simp
  from skip_trailing_sim [OF this s] obtain r' where
    "skip_trailing stream_ops n i' = Some (Inr r')" by blast
  with p' show ?thesis by (simp add: parse_istream_def parse_from_def)
qed

section \<open>Fuel\<close>

text \<open>
  From here on the equations of the productions are applied one branch at a time, by
  the lemmas above.
\<close>

declare parse_string.simps [simp del] parse_number.simps [simp del] detail_parse.simps [simp del]
  parse_array.simps [simp del] parse_object.simps [simp del] skip_trailing.simps [simp del]

lemma fuel_zero [simp]:
  "parse_string ops 0 esc rv cur = None"
  "parse_number ops rd 0 io cur = None"
  "detail_parse ops rd 0 cur = None"
  "parse_array ops rd 0 a accept has cur = None"
  "parse_object ops rd 0 m key gk ge cur = None"
  "skip_trailing ops 0 cur = None"
  by (simp_all add: parse_string.simps parse_number.simps detail_parse.simps parse_array.simps
      parse_object.simps skip_trailing.simps)

lemma parse_string_mono:
  "parse_string ops n esc rv cur = Some r \<Longrightarrow> parse_string ops (Suc n) esc rv cur = Some r"
proof (induction n arbitrary: esc rv cur)
  case 0
  then show ?case by simp
next
  case (Suc n)
  show ?case
  proof (cases "not_end ops cur \<and> \<not> (deref ops cur = CHR 0x22 \<and> \<not> esc)")
    case True
    then have 1: "not_end ops cur" "\<not> (deref ops cur = CHR 0x22 \<and> \<not> esc)" by simp_all
    from Suc.prems show ?thesis
      unfolding parse_string_step [OF 1, of "Suc n"] parse_string_step [OF 1, of n]
      by (rule Suc.IH)
  next
    case False
    with Suc.prems show ?thesis by (auto simp: parse_string.simps)
  qed
qed

lemma parse_number_more:
  "peek ops cur = (nx, cur1) \<Longrightarrow> number_char nx \<Longrightarrow> not_end ops (incr ops cur1) \<Longrightarrow>
   parse_number ops rd (Suc n) io cur = parse_number ops rd n (io @ [deref ops cur]) (incr ops cur1)"
  by (simp add: Let_def parse_number.simps)

lemma parse_number_stop:
  "peek ops cur = (nx, cur1) \<Longrightarrow> \<not> (number_char nx \<and> not_end ops (incr ops cur1)) \<Longrightarrow>
   parse_number ops rd (Suc n) io cur =
     Some (Inr (value_of_double (rd (io @ [deref ops cur])),
                if number_char nx then incr ops cur1 else cur1))"
  by (auto simp: Let_def parse_number.simps)

lemma parse_number_mono:
  "parse_number ops rd n io cur = Some r \<Longrightarrow> parse_number ops rd (Suc n) io cur = Some r"
proof (induction n arbitrary: io cur)
  case 0
  then show ?case by simp
next
  case (Suc n)
  obtain nx cur1 where pk: "peek ops cur = (nx, cur1)" by (cases "peek ops cur")
  show ?case
  proof (cases "number_char nx \<and> not_end ops (incr ops cur1)")
    case True
    then have 1: "number_char nx" "not_end ops (incr ops cur1)" by simp_all
    from Suc.prems show ?thesis
      unfolding parse_number_more [OF pk 1, of rd "Suc n"] parse_number_more [OF pk 1, of rd n]
      by (rule Suc.IH)
  next
    case False
    from Suc.prems show ?thesis
      unfolding parse_number_stop [OF pk False, of rd "Suc n"] parse_number_stop [OF pk False, of rd n] .
  qed
qed

lemma bind_mono:
  assumes "(case r1 of None \<Rightarrow> None | Some (Inl e) \<Rightarrow> Some (Inl e) | Some (Inr (v, c)) \<Rightarrow> k1 v c) = Some y"
    and "\<And>x. r1 = Some x \<Longrightarrow> r2 = Some x"
    and "\<And>v c. k1 v c = Some y \<Longrightarrow> k2 v c = Some y"
  shows "(case r2 of None \<Rightarrow> None | Some (Inl e) \<Rightarrow> Some (Inl e) | Some (Inr (v, c)) \<Rightarrow> k2 v c) = Some y"
  using assms by (auto split: option.splits sum.splits)

lemma next_mono:
  assumes "(let cur' = incr ops cur in if not_end ops cur' then f1 cur' else Some (Inl e)) = Some y"
    and "\<And>c. f1 c = Some y \<Longrightarrow> f2 c = Some y"
  shows "(let cur' = incr ops cur in if not_end ops cur' then f2 cur' else Some (Inl e)) = Some y"
  using assms by (auto simp: Let_def split: if_splits)

lemma mono_step:
  assumes IH: "mono_at ops rd n"
  shows "mono_at ops rd (Suc n)"
proof -
  from IH have IHp: "\<And>cur r. detail_parse ops rd n cur = Some r \<Longrightarrow> detail_parse ops rd (Suc n) cur = Some r"
    and IHa: "\<And>rv accept has cur r. parse_array ops rd n rv accept has cur = Some r
        \<Longrightarrow> parse_array ops rd (Suc n) rv accept has cur = Some r"
    and IHo: "\<And>rv key gk ge cur r. parse_object ops rd n rv key gk ge cur = Some r
        \<Longrightarrow> parse_object ops rd (Suc n) rv key gk ge cur = Some r"
    unfolding mono_at_def by blast+
  have p: "detail_parse ops rd (Suc (Suc n)) cur = Some r"
    if run: "detail_parse ops rd (Suc n) cur = Some r" for cur r
  proof -
    let ?c = "deref ops cur"
    consider (quote) "?c = CHR 0x22" | (arr) "?c = CHR ''[''" | (obj) "?c = CHR ''{''"
      | (num) "isdigit ?c \<or> ?c = CHR ''-''" | (null) "?c = CHR ''n''" | (true) "?c = CHR ''t''"
      | (false) "?c = CHR ''f''" | (ws) "is_whitespace ?c"
      | (bad) "\<not> value_start ?c" "\<not> is_whitespace ?c"
      unfolding value_start_def by blast
    then show ?thesis
    proof cases
      case quote
      from run show ?thesis unfolding detail_parse_quote [OF quote]
        by (rule bind_mono) (simp_all add: parse_string_mono)
    next
      case arr
      from run show ?thesis unfolding detail_parse_array [OF arr]
        by (rule bind_mono) (simp_all add: IHa)
    next
      case obj
      from run show ?thesis unfolding detail_parse_object [OF obj]
        by (rule bind_mono) (simp_all add: IHo)
    next
      case num
      from run show ?thesis unfolding detail_parse_number [OF num]
        by (rule parse_number_mono)
    next
      case null
      from run show ?thesis unfolding detail_parse_null [OF null] .
    next
      case true
      from run show ?thesis unfolding detail_parse_true [OF true] .
    next
      case false
      from run show ?thesis unfolding detail_parse_false [OF false] .
    next
      case ws
      from run show ?thesis unfolding detail_parse_ws [OF ws]
        by (rule next_mono) (rule IHp)
    next
      case bad
      from run show ?thesis unfolding detail_parse_bad [OF bad] .
    qed
  qed
  have a: "parse_array ops rd (Suc (Suc n)) rv accept has cur = Some r"
    if run: "parse_array ops rd (Suc n) rv accept has cur = Some r" for rv accept has cur r
  proof -
    let ?c = "deref ops cur"
    consider (ws) "is_whitespace ?c"
      | (close) "\<not> is_whitespace ?c" "?c = CHR '']''" "has \<noteq> accept"
      | (elem) "\<not> is_whitespace ?c" "\<not> (?c = CHR '']'' \<and> has \<noteq> accept)" "accept"
      | (comma) "\<not> is_whitespace ?c" "\<not> (?c = CHR '']'' \<and> has \<noteq> accept)" "\<not> accept" "?c = CHR '',''"
      | (bad) "\<not> is_whitespace ?c" "\<not> (?c = CHR '']'' \<and> has \<noteq> accept)" "\<not> accept" "?c \<noteq> CHR '',''"
      by blast
    then show ?thesis
    proof cases
      case ws
      from run show ?thesis unfolding parse_array_ws [OF ws]
        by (rule next_mono) (rule IHa)
    next
      case close
      from run show ?thesis unfolding parse_array_close [OF close] .
    next
      case elem
      from run show ?thesis unfolding parse_array_elem [OF elem]
        by (rule bind_mono) (auto intro: IHp IHa elim!: next_mono)
    next
      case comma
      from run show ?thesis unfolding parse_array_comma [OF comma(3,4)]
        by (rule next_mono) (rule IHa)
    next
      case bad
      from run show ?thesis unfolding parse_array_bad [OF bad] .
    qed
  qed
  have o: "parse_object ops rd (Suc (Suc n)) rv key gk ge cur = Some r"
    if run: "parse_object ops rd (Suc n) rv key gk ge cur = Some r" for rv key gk ge cur r
  proof -
    let ?c = "deref ops cur"
    consider (close) "?c = CHR ''}''" "\<not> gk"
      | (ws) "\<not> (?c = CHR ''}'' \<and> \<not> gk)" "is_whitespace ?c"
      | (key) "\<not> (?c = CHR ''}'' \<and> \<not> gk)" "?c = CHR 0x22"
      | (val) "gk" "?c = CHR '':''"
      | (comma) "ge" "\<not> gk" "?c = CHR '',''"
      | (bad) "\<not> (?c = CHR ''}'' \<and> \<not> gk)" "\<not> is_whitespace ?c" "?c \<noteq> CHR 0x22"
          "\<not> (gk \<and> ?c = CHR '':'')" "\<not> (ge \<and> \<not> gk \<and> ?c = CHR '','')"
      by blast
    then show ?thesis
    proof cases
      case close
      from run show ?thesis unfolding parse_object_close [OF close] .
    next
      case ws
      from run show ?thesis unfolding parse_object_ws [OF ws]
        by (rule next_mono) (rule IHo)
    next
      case key
      from run show ?thesis unfolding parse_object_key [OF key]
        by (rule bind_mono) (auto intro: parse_string_mono IHo elim!: next_mono)
    next
      case val
      from run show ?thesis unfolding parse_object_value [OF val]
        by (rule bind_mono) (auto intro: IHp IHo elim!: next_mono)
    next
      case comma
      from run show ?thesis unfolding parse_object_comma [OF comma]
        by (rule next_mono) (rule IHo)
    next
      case bad
      from run show ?thesis unfolding parse_object_bad [OF bad] .
    qed
  qed
  from p a o show ?thesis unfolding mono_at_def by blast
qed

lemma mono_all: "mono_at ops rd n"
proof (induction n)
  case 0
  show ?case by (simp add: mono_at_def)
next
  case (Suc n)
  then show ?case by (rule mono_step)
qed

lemma detail_parse_mono:
  "detail_parse ops rd n cur = Some r \<Longrightarrow> n \<le> m \<Longrightarrow> detail_parse ops rd m cur = Some r"
proof (induction m)
  case 0
  then show ?case by simp
next
  case (Suc m)
  show ?case
  proof (cases "n = Suc m")
    case True
    with Suc.prems show ?thesis by simp
  next
    case False
    with Suc.prems have "n \<le> m" by simp
    from Suc.IH [OF Suc.prems(1) this] mono_all [of ops rd m] show ?thesis
      unfolding mono_at_def by blast
  qed
qed

lemma skip_trailing_more:
  "not_end ops (incr ops cur) \<Longrightarrow> is_whitespace (deref ops (incr ops cur)) \<Longrightarrow>
   skip_trailing ops (Suc n) cur = skip_trailing ops n (incr ops cur)"
  by (simp add: Let_def skip_trailing.simps)

lemma skip_trailing_stop:
  "\<not> (not_end ops (incr ops cur) \<and> is_whitespace (deref ops (incr ops cur))) \<Longrightarrow>
   skip_trailing ops (Suc n) cur =
     (if not_end ops (incr ops cur)
      then Some (Inl (exception (''garbage at end of input: '' @ [deref ops (incr ops cur)])))
      else Some (Inr ((), incr ops cur)))"
  by (auto simp: Let_def skip_trailing.simps)

lemma skip_trailing_mono1:
  "skip_trailing ops n cur = Some r \<Longrightarrow> skip_trailing ops (Suc n) cur = Some r"
proof (induction n arbitrary: cur)
  case 0
  then show ?case by simp
next
  case (Suc n)
  show ?case
  proof (cases "not_end ops (incr ops cur) \<and> is_whitespace (deref ops (incr ops cur))")
    case True
    then have 1: "not_end ops (incr ops cur)" "is_whitespace (deref ops (incr ops cur))"
      by simp_all
    from Suc.prems show ?thesis
      unfolding skip_trailing_more [OF 1, of "Suc n"] skip_trailing_more [OF 1, of n]
      by (rule Suc.IH)
  next
    case False
    from Suc.prems show ?thesis
      unfolding skip_trailing_stop [OF False, of "Suc n"] skip_trailing_stop [OF False, of n] .
  qed
qed

lemma skip_trailing_mono:
  "skip_trailing ops n cur = Some r \<Longrightarrow> n \<le> m \<Longrightarrow> skip_trailing ops m cur = Some r"
proof (induction m)
  case 0
  then show ?case by simp
next
  case (Suc m)
  show ?case
  proof (cases "n = Suc m")
    case True
    with Suc.prems show ?thesis by simp
  next
    case False
    with Suc.prems have "n \<le> m" by simp
    from skip_trailing_mono1 [OF Suc.IH [OF Suc.prems(1) this]] show ?thesis .
  qed
qed

lemma parse_from_mono:
  assumes "parse_from ops rd n cur = Some r" and "n \<le> m"
  shows "parse_from ops rd m cur = Some r"
proof -
  from assms(1) obtain x where p: "detail_parse ops rd n cur = Some x"
    by (auto simp: parse_from_def split: option.splits)
  note p' = detail_parse_mono [OF p assms(2)]
  show ?thesis
  proof (cases x)
    case (Inl e)
    with assms p p' show ?thesis by (simp add: parse_from_def)
  next
    case (Inr y)
    obtain v c where y: "y = (v, c)" by (cases y)
    from assms(1) p Inr y obtain z where s: "skip_trailing ops n c = Some z"
      by (auto simp: parse_from_def split: option.splits)
    from skip_trailing_mono [OF s assms(2)] assms(1) p p' Inr y s show ?thesis
      by (simp add: parse_from_def)
  qed
qed

section \<open>The parser of strings is total\<close>

lemma well_formed_array_snoc: "well_formed_array (rv @ [v]) = (well_formed_array rv \<and> well_formed v)"
  by (induction rv) auto

lemma well_formed_object_assign:
  "well_formed_object m \<Longrightarrow> well_formed v \<Longrightarrow> well_formed_object (map_assign m k v)"
  by (induction m k v rule: map_assign.induct) auto

lemma parse_string_total:
  "length cs < n \<Longrightarrow>
   \<exists>r. parse_string string_ops n esc rv cs = Some r \<and>
        (\<forall>s cs'. r = Inr (s, cs') \<longrightarrow> cs' \<noteq> [] \<and> length cs' \<le> length cs)"
proof (induction cs arbitrary: n esc rv)
  case Nil
  then obtain k where "n = Suc k" by (cases n) auto
  then show ?case by (simp add: parse_string.simps)
next
  case (Cons c cs)
  then obtain k where k: "n = Suc k" "length cs < k" by (cases n) auto
  show ?case
  proof (cases "c = CHR 0x22 \<and> \<not> esc")
    case True
    with k show ?thesis by (simp add: parse_string.simps)
  next
    case False
    then have "parse_string string_ops (Suc k) esc rv (c # cs) =
       parse_string string_ops k (c = CHR 0x5C \<and> \<not> esc)
         (if c = CHR 0x5C \<and> \<not> esc then rv else rv @ [c]) cs"
      by (subst parse_string_step) simp_all
    with Cons.IH [OF k(2)] k show ?thesis by fastforce
  qed
qed

lemma expect_string_cursor:
  "expect string_ops xs cs = (True, cs') \<Longrightarrow> CHR 0x00 \<notin> set xs \<Longrightarrow> cs \<noteq> [] \<Longrightarrow>
   cs' \<noteq> [] \<and> length cs' \<le> length cs"
proof (induction xs arbitrary: cs)
  case Nil
  then show ?case by simp
next
  case (Cons x xs)
  from Cons.prems have 1: "str_deref (tl cs) = x" "expect string_ops xs (tl cs) = (True, cs')"
    by (auto simp: Let_def split: if_splits)
  with Cons.prems(2) have "tl cs \<noteq> []" by (cases "tl cs") auto
  from Cons.IH [OF 1(2) _ this] Cons.prems(2) show ?case by auto
qed


lemma total_atD_parse:
  "total_at rd n \<Longrightarrow> 2 * length cs + 1 \<le> n \<Longrightarrow>
   \<exists>r. detail_parse string_ops rd n cs = Some r \<and>
       (\<forall>v cs'. r = Inr (v, cs') \<longrightarrow> cs' \<noteq> [] \<and> length cs' \<le> length cs \<and> well_formed v)"
  unfolding total_at_def by blast

lemma total_atD_array:
  "total_at rd n \<Longrightarrow> 2 * length cs + 2 \<le> n \<Longrightarrow> well_formed_array rv \<Longrightarrow>
   \<exists>r. parse_array string_ops rd n rv accept has cs = Some r \<and>
       (\<forall>a cs'. r = Inr (a, cs') \<longrightarrow> cs' \<noteq> [] \<and> length cs' \<le> length cs \<and> well_formed_array a)"
  unfolding total_at_def by blast

lemma total_atD_object:
  "total_at rd n \<Longrightarrow> 2 * length cs + 2 \<le> n \<Longrightarrow> is_map rv \<Longrightarrow> well_formed_object rv \<Longrightarrow>
   \<exists>r. parse_object string_ops rd n rv key gk ge cs = Some r \<and>
       (\<forall>m cs'. r = Inr (m, cs') \<longrightarrow>
          cs' \<noteq> [] \<and> length cs' \<le> length cs \<and> is_map m \<and> well_formed_object m)"
  unfolding total_at_def by blast

lemma array_next_total:
  assumes IH: "total_at rd n" and ne: "cs1 \<noteq> []" and fuel: "2 * length cs1 \<le> n"
    and wf: "well_formed_array rv"
  shows "\<exists>r. (let cur' = incr string_ops cs1
              in if not_end string_ops cur' then parse_array string_ops rd n rv accept has cur'
                 else Some (Inl e)) = Some r \<and>
       (\<forall>a cs'. r = Inr (a, cs') \<longrightarrow> cs' \<noteq> [] \<and> length cs' \<le> length cs1 \<and> well_formed_array a)"
proof (cases "tl cs1 = []")
  case True
  then show ?thesis by (simp add: Let_def)
next
  case False
  from ne fuel have "2 * length (tl cs1) + 2 \<le> n" by (cases cs1) auto
  moreover have "length (tl cs1) \<le> length cs1" by simp
  ultimately show ?thesis
    using total_atD_array [OF IH _ wf, of "tl cs1" accept has] False
    by (simp add: Let_def del: length_tl) (meson le_trans)
qed

lemma object_next_total:
  assumes IH: "total_at rd n" and ne: "cs1 \<noteq> []" and fuel: "2 * length cs1 \<le> n"
    and wf: "is_map rv" "well_formed_object rv"
  shows "\<exists>r. (let cur' = incr string_ops cs1
              in if not_end string_ops cur' then parse_object string_ops rd n rv key gk ge cur'
                 else Some (Inl e)) = Some r \<and>
       (\<forall>m cs'. r = Inr (m, cs') \<longrightarrow>
          cs' \<noteq> [] \<and> length cs' \<le> length cs1 \<and> is_map m \<and> well_formed_object m)"
proof (cases "tl cs1 = []")
  case True
  then show ?thesis by (simp add: Let_def)
next
  case False
  from ne fuel have "2 * length (tl cs1) + 2 \<le> n" by (cases cs1) auto
  moreover have "length (tl cs1) \<le> length cs1" by simp
  ultimately show ?thesis
    using total_atD_object [OF IH _ wf, of "tl cs1" key gk ge] False
    by (simp add: Let_def del: length_tl) (meson le_trans)
qed

lemma bind_total:
  assumes "r1 = Some x"
    and "\<And>v c. x = Inr (v, c) \<Longrightarrow> \<exists>r. k v c = Some r \<and> Q r"
    and "\<And>e. Q (Inl e)"
  shows "\<exists>r. (case r1 of None \<Rightarrow> None | Some (Inl e) \<Rightarrow> Some (Inl e) | Some (Inr (v, c)) \<Rightarrow> k v c)
            = Some r \<and> Q r"
proof (cases x)
  case (Inl e)
  with assms(1,3) show ?thesis by simp
next
  case (Inr p)
  obtain v c where "p = (v, c)" by (cases p)
  with Inr assms(1) assms(2) [of v c] show ?thesis by simp
qed

lemma parse_array_total_step:
  assumes IH: "total_at rd n" and fuel: "2 * length cs + 2 \<le> Suc n" and wf: "well_formed_array rv"
  shows "\<exists>r. parse_array string_ops rd (Suc n) rv accept has cs = Some r \<and>
       (\<forall>a cs'. r = Inr (a, cs') \<longrightarrow> cs' \<noteq> [] \<and> length cs' \<le> length cs \<and> well_formed_array a)"
proof -
  let ?c = "deref string_ops cs"
  consider (ws) "is_whitespace ?c"
    | (close) "\<not> is_whitespace ?c" "?c = CHR '']''" "has \<noteq> accept"
    | (elem) "\<not> is_whitespace ?c" "\<not> (?c = CHR '']'' \<and> has \<noteq> accept)" "accept"
    | (comma) "\<not> is_whitespace ?c" "\<not> (?c = CHR '']'' \<and> has \<noteq> accept)" "\<not> accept" "?c = CHR '',''"
    | (bad) "\<not> is_whitespace ?c" "\<not> (?c = CHR '']'' \<and> has \<noteq> accept)" "\<not> accept" "?c \<noteq> CHR '',''"
    by blast
  then show ?thesis
  proof cases
    case ws
    then have ne: "cs \<noteq> []" by (cases cs) (auto simp: is_whitespace_def)
    with fuel have "2 * length cs \<le> n" by (cases cs) auto
    from array_next_total [OF IH ne this wf] show ?thesis
      unfolding parse_array_ws [OF ws] .
  next
    case close
    then have "cs \<noteq> []" by (cases cs) auto
    with wf show ?thesis unfolding parse_array_close [OF close] by simp
  next
    case elem
    from fuel have f1: "2 * length cs + 1 \<le> n" by simp
    from total_atD_parse [OF IH f1] obtain x where
      x: "detail_parse string_ops rd n cs = Some x"
      and post: "\<And>v cs'. x = Inr (v, cs') \<Longrightarrow> cs' \<noteq> [] \<and> length cs' \<le> length cs \<and> well_formed v"
      by blast
    show ?thesis
      unfolding parse_array_elem [OF elem]
    proof (rule bind_total [OF x])
      fix v c assume "x = Inr (v, c)"
      from post [OF this] have ne: "c \<noteq> []" and len: "length c \<le> length cs" and wv: "well_formed v"
        by simp_all
      from len f1 have "2 * length c \<le> n" by simp
      moreover from wf wv have "well_formed_array (rv @ [v])" by (simp add: well_formed_array_snoc)
      ultimately have "\<exists>r. (let cur' = incr string_ops c
              in if not_end string_ops cur' then parse_array string_ops rd n (rv @ [v]) False True cur'
                 else Some (Inl (exception ''bad array''))) = Some r \<and>
         (\<forall>a cs'. r = Inr (a, cs') \<longrightarrow> cs' \<noteq> [] \<and> length cs' \<le> length c \<and> well_formed_array a)"
        using array_next_total [OF IH ne] by blast
      with len show "\<exists>r. (let cur' = incr string_ops c
              in if not_end string_ops cur' then parse_array string_ops rd n (rv @ [v]) False True cur'
                 else Some (Inl (exception ''bad array''))) = Some r \<and>
         (\<forall>a cs'. r = Inr (a, cs') \<longrightarrow> cs' \<noteq> [] \<and> length cs' \<le> length cs \<and> well_formed_array a)"
        by fastforce
    qed simp
  next
    case comma
    then have ne: "cs \<noteq> []" by (cases cs) auto
    with fuel have "2 * length cs \<le> n" by (cases cs) auto
    from array_next_total [OF IH ne this wf] show ?thesis
      unfolding parse_array_comma [OF comma(3,4)] .
  next
    case bad
    show ?thesis unfolding parse_array_bad [OF bad] by simp
  qed
qed


lemma parse_object_total_step:
  assumes IH: "total_at rd n" and fuel: "2 * length cs + 2 \<le> Suc n"
    and wf: "is_map rv" "well_formed_object rv"
  shows "\<exists>r. parse_object string_ops rd (Suc n) rv key gk ge cs = Some r \<and>
       (\<forall>m cs'. r = Inr (m, cs') \<longrightarrow>
          cs' \<noteq> [] \<and> length cs' \<le> length cs \<and> is_map m \<and> well_formed_object m)"
proof -
  let ?c = "deref string_ops cs"
  let ?Q = "\<lambda>l r. \<forall>m cs'. r = Inr (m, cs') \<longrightarrow>
          cs' \<noteq> [] \<and> length cs' \<le> l \<and> is_map m \<and> well_formed_object m"
  consider (close) "?c = CHR ''}''" "\<not> gk"
    | (ws) "\<not> (?c = CHR ''}'' \<and> \<not> gk)" "is_whitespace ?c"
    | (key) "\<not> (?c = CHR ''}'' \<and> \<not> gk)" "?c = CHR 0x22"
    | (val) "gk" "?c = CHR '':''"
    | (comma) "ge" "\<not> gk" "?c = CHR '',''"
    | (bad) "\<not> (?c = CHR ''}'' \<and> \<not> gk)" "\<not> is_whitespace ?c" "?c \<noteq> CHR 0x22"
        "\<not> (gk \<and> ?c = CHR '':'')" "\<not> (ge \<and> \<not> gk \<and> ?c = CHR '','')"
    by blast
  then show ?thesis
  proof cases
    case close
    then have "cs \<noteq> []" by (cases cs) auto
    with wf show ?thesis unfolding parse_object_close [OF close] by simp
  next
    case ws
    then have ne: "cs \<noteq> []" by (cases cs) (auto simp: is_whitespace_def)
    with fuel have "2 * length cs \<le> n" by (cases cs) auto
    from object_next_total [OF IH ne this wf] show ?thesis
      unfolding parse_object_ws [OF ws] .
  next
    case key
    then obtain rest where cs: "cs = CHR 0x22 # rest" by (cases cs) auto
    with fuel have f: "length rest < n" "2 * length rest + 2 \<le> n" by simp_all
    from parse_string_total [OF f(1), of False "[]"] obtain x where
      x: "parse_string string_ops n False [] (incr string_ops cs) = Some x"
      and post: "\<And>k c. x = Inr (k, c) \<Longrightarrow> c \<noteq> [] \<and> length c \<le> length rest"
      unfolding cs by auto
    show ?thesis
      unfolding parse_object_key [OF key]
    proof (rule bind_total [OF x])
      fix k c assume "x = Inr (k, c)"
      from post [OF this] have ne: "c \<noteq> []" and len: "length c \<le> length rest" by simp_all
      from len f(2) have "2 * length c \<le> n" by simp
      from object_next_total [OF IH ne this wf, of k True ge "exception ''bad object''"] len cs
      show "\<exists>r. (let cur' = incr string_ops c
              in if not_end string_ops cur' then parse_object string_ops rd n rv k True ge cur'
                 else Some (Inl (exception ''bad object''))) = Some r \<and> ?Q (length cs) r"
        by fastforce
    qed simp
  next
    case val
    then obtain rest where cs: "cs = CHR '':'' # rest" by (cases cs) auto
    with fuel have f: "2 * length rest + 1 \<le> n" "2 * length rest + 2 \<le> n" by simp_all
    from total_atD_parse [OF IH f(1)] obtain x where
      x: "detail_parse string_ops rd n (incr string_ops cs) = Some x"
      and post: "\<And>v c. x = Inr (v, c) \<Longrightarrow> c \<noteq> [] \<and> length c \<le> length rest \<and> well_formed v"
      unfolding cs by auto
    show ?thesis
      unfolding parse_object_value [OF val]
    proof (rule bind_total [OF x])
      fix v c assume "x = Inr (v, c)"
      from post [OF this] have ne: "c \<noteq> []" and len: "length c \<le> length rest"
        and wv: "well_formed v" by simp_all
      from len f(2) have l: "2 * length c \<le> n" by simp
      from wf wv have w: "is_map (map_assign rv key v)" "well_formed_object (map_assign rv key v)"
        by (simp_all add: is_map_assign well_formed_object_assign)
      from object_next_total [OF IH ne l w, of key False True "exception ''bad object''"] len cs
      show "\<exists>r. (let cur' = incr string_ops c
              in if not_end string_ops cur'
                 then parse_object string_ops rd n (map_assign rv key v) key False True cur'
                 else Some (Inl (exception ''bad object''))) = Some r \<and> ?Q (length cs) r"
        by fastforce
    qed simp
  next
    case comma
    then have ne: "cs \<noteq> []" by (cases cs) auto
    with fuel have "2 * length cs \<le> n" by (cases cs) auto
    from object_next_total [OF IH ne this wf] show ?thesis
      unfolding parse_object_comma [OF comma] .
  next
    case bad
    show ?thesis unfolding parse_object_bad [OF bad] by simp
  qed
qed

lemma map_res_total:
  assumes "r1 = Some x"
    and "\<And>y c. x = Inr (y, c) \<Longrightarrow> Q (Inr (f y, c))"
    and "\<And>e. Q (Inl e)"
  shows "\<exists>r. (case r1 of None \<Rightarrow> None | Some (Inl e) \<Rightarrow> Some (Inl e)
               | Some (Inr (y, c)) \<Rightarrow> Some (Inr (f y, c))) = Some r \<and> Q r"
  by (rule bind_total [OF assms(1)]) (use assms(2,3) in auto)

lemma literal_total:
  assumes "cs \<noteq> []" and "CHR 0x00 \<notin> set xs"
  shows "\<exists>r. (case expect string_ops xs cs of
                 (True, cur') \<Rightarrow> Some (Inr (x, cur'))
               | (False, cur') \<Rightarrow> Some (Inl (e cur'))) = Some r \<and>
           (\<forall>v cs'. r = Inr (v, cs') \<longrightarrow> cs' \<noteq> [] \<and> length cs' \<le> length cs \<and> v = x)"
proof (cases "expect string_ops xs cs")
  case (Pair b c)
  show ?thesis
  proof (cases b)
    case True
    with Pair expect_string_cursor [OF _ assms(2,1), of c] show ?thesis by simp
  next
    case False
    with Pair show ?thesis by simp
  qed
qed

lemma detail_parse_total_step:
  assumes IH: "total_at rd n" and fuel: "2 * length cs + 1 \<le> Suc n"
  shows "\<exists>r. detail_parse string_ops rd (Suc n) cs = Some r \<and>
       (\<forall>v cs'. r = Inr (v, cs') \<longrightarrow> cs' \<noteq> [] \<and> length cs' \<le> length cs \<and> well_formed v)"
proof -
  let ?c = "deref string_ops cs"
  consider (quote) "?c = CHR 0x22" | (arr) "?c = CHR ''[''" | (obj) "?c = CHR ''{''"
    | (num) "isdigit ?c \<or> ?c = CHR ''-''" | (null) "?c = CHR ''n''" | (true) "?c = CHR ''t''"
    | (false) "?c = CHR ''f''" | (ws) "is_whitespace ?c"
    | (bad) "\<not> value_start ?c" "\<not> is_whitespace ?c"
    unfolding value_start_def by blast
  then show ?thesis
  proof cases
    case quote
    then obtain rest where cs: "cs = CHR 0x22 # rest" by (cases cs) auto
    with fuel have f: "length rest < n" by simp
    from parse_string_total [OF f, of False "[]"] obtain x where
      x: "parse_string string_ops n False [] (incr string_ops cs) = Some x"
      and post: "\<And>k c. x = Inr (k, c) \<Longrightarrow> c \<noteq> [] \<and> length c \<le> length rest"
      unfolding cs by auto
    show ?thesis unfolding detail_parse_quote [OF quote]
      by (rule map_res_total [OF x]) (use post cs in \<open>auto simp: value_of_string_def\<close>)
  next
    case arr
    then obtain rest where cs: "cs = CHR ''['' # rest" by (cases cs) auto
    with fuel have f: "2 * length rest + 2 \<le> n" by simp
    from total_atD_array [OF IH f, of "[]" True False] obtain x where
      x: "parse_array string_ops rd n [] True False (incr string_ops cs) = Some x"
      and post: "\<And>a c. x = Inr (a, c) \<Longrightarrow> c \<noteq> [] \<and> length c \<le> length rest \<and> well_formed_array a"
      unfolding cs by auto
    show ?thesis unfolding detail_parse_array [OF arr]
      by (rule map_res_total [OF x]) (use post cs in \<open>auto simp: value_of_array_def\<close>)
  next
    case obj
    then obtain rest where cs: "cs = CHR ''{'' # rest" by (cases cs) auto
    with fuel have f: "2 * length rest + 2 \<le> n" by simp
    from total_atD_object [OF IH f, of "[]" "[]" False False] obtain x where
      x: "parse_object string_ops rd n [] [] False False (incr string_ops cs) = Some x"
      and post: "\<And>m c. x = Inr (m, c) \<Longrightarrow>
        c \<noteq> [] \<and> length c \<le> length rest \<and> is_map m \<and> well_formed_object m"
      unfolding cs by auto
    show ?thesis unfolding detail_parse_object [OF obj]
      by (rule map_res_total [OF x]) (use post cs in \<open>auto simp: value_of_object_def\<close>)
  next
    case num
    then obtain c rest where cs: "cs = c # rest" by (cases cs) (auto simp: isdigit_def)
    with fuel have f: "length rest < n" by simp
    have "length (takeWhile number_char rest) \<le> length rest"
      by (rule length_takeWhile_le)
    then show ?thesis
      unfolding detail_parse_number [OF num]
      unfolding cs parse_number_string [OF f] by simp
  next
    case null
    then have "cs \<noteq> []" by (cases cs) auto
    from literal_total [OF this, of "''ull''" value_null] show ?thesis
      unfolding detail_parse_null [OF null] by (fastforce simp: value_null_def)
  next
    case true
    then have "cs \<noteq> []" by (cases cs) auto
    from literal_total [OF this, of "''rue''" "value_of_bool True"] show ?thesis
      unfolding detail_parse_true [OF true] by (fastforce simp: value_of_bool_def)
  next
    case false
    then have "cs \<noteq> []" by (cases cs) auto
    from literal_total [OF this, of "''alse''" "value_of_bool False"] show ?thesis
      unfolding detail_parse_false [OF false] by (fastforce simp: value_of_bool_def)
  next
    case ws
    then obtain c rest where cs: "cs = c # rest" by (cases cs) (auto simp: is_whitespace_def)
    show ?thesis
    proof (cases "rest = []")
      case True
      with cs show ?thesis unfolding detail_parse_ws [OF ws] by (simp add: Let_def)
    next
      case False
      from cs fuel have "2 * length rest + 1 \<le> n" by simp
      from total_atD_parse [OF IH this] False cs show ?thesis
        unfolding detail_parse_ws [OF ws] by (fastforce simp: Let_def)
    qed
  next
    case bad
    show ?thesis unfolding detail_parse_bad [OF bad] by simp
  qed
qed

lemma total_all: "total_at rd n"
proof (induction n)
  case 0
  show ?case by (simp add: total_at_def)
next
  case (Suc n)
  show ?case
    unfolding total_at_def
    using detail_parse_total_step [OF Suc] parse_array_total_step [OF Suc]
      parse_object_total_step [OF Suc]
    by blast
qed

lemma skip_trailing_total:
  "length cs < n \<Longrightarrow> \<exists>r. skip_trailing string_ops n cs = Some r"
proof (induction cs arbitrary: n)
  case Nil
  then obtain k where "n = Suc k" by (cases n) auto
  then show ?case by (simp add: skip_trailing.simps)
next
  case (Cons c cs)
  then obtain k where k: "n = Suc k" "length cs < k" by (cases n) auto
  show ?case
  proof (cases "cs \<noteq> [] \<and> is_whitespace (str_deref cs)")
    case True
    then have "skip_trailing string_ops (Suc k) (c # cs) = skip_trailing string_ops k cs"
      by (subst skip_trailing_more) simp_all
    moreover from True obtain d ds where "cs = d # ds" by (cases cs) auto
    with Cons.IH [of k] k have "\<exists>r. skip_trailing string_ops k cs = Some r" by simp
    ultimately show ?thesis using k by simp
  next
    case False
    then have "\<not> (not_end string_ops (incr string_ops (c # cs))
       \<and> is_whitespace (deref string_ops (incr string_ops (c # cs))))"
      by simp
    from skip_trailing_stop [OF this, of k] k show ?thesis by simp
  qed
qed

theorem parse_total: "\<exists>r. parse rd s = Some r"
proof -
  let ?n = "2 * length s + 1"
  from total_atD_parse [OF total_all, of s ?n rd] obtain x where
    x: "detail_parse string_ops rd ?n s = Some x"
    and post: "\<And>v c. x = Inr (v, c) \<Longrightarrow> c \<noteq> [] \<and> length c \<le> length s \<and> well_formed v"
    by auto
  show ?thesis
  proof (cases x)
    case (Inl e)
    with x show ?thesis by (simp add: parse_def parse_fuel_def parse_from_def)
  next
    case (Inr p)
    obtain v c where p: "p = (v, c)" by (cases p)
    from post [of v c] Inr p have "length c < ?n" by simp
    from skip_trailing_total [OF this] obtain z where "skip_trailing string_ops ?n c = Some z"
      by blast
    with x Inr p show ?thesis
      by (cases z) (simp_all add: parse_def parse_fuel_def parse_from_def)
  qed
qed

lemma parse_well_formed:
  assumes "parse rd s = Some (Inr v)"
  shows "well_formed v"
proof -
  let ?n = "2 * length s + 1"
  from total_atD_parse [OF total_all, of s ?n rd] obtain x where
    x: "detail_parse string_ops rd ?n s = Some x"
    and post: "\<And>v c. x = Inr (v, c) \<Longrightarrow> c \<noteq> [] \<and> length c \<le> length s \<and> well_formed v"
    by auto
  from assms x obtain c where "x = Inr (v, c)"
    by (auto simp: parse_def parse_fuel_def parse_from_def split: sum.splits option.splits)
  from post [OF this] show ?thesis by simp
qed

lemma parse_fuel_irrelevant:
  assumes "parse_fuel rd n s = Some r"
  shows "parse rd s = Some r"
proof -
  from parse_total [of rd s] obtain r' where r': "parse rd s = Some r'" by blast
  let ?m = "max n (2 * length s + 1)"
  from assms have "parse_from string_ops rd ?m s = Some r"
    unfolding parse_fuel_def by (rule parse_from_mono) simp
  moreover from r' have "parse_from string_ops rd ?m s = Some r'"
    unfolding parse_def parse_fuel_def by (rule parse_from_mono) simp
  ultimately show ?thesis using r' by simp
qed

text \<open>
  Claim C8.  Whenever \<^verbatim>\<open>parse\<close> on a text returns a value (in particular on every
  well-formed text), \<^verbatim>\<open>parse\<close> on a stream over the same characters returns the same
  value, the fuel being at least that of the string parser.
\<close>

theorem stream_agrees_with_string:
  assumes "parse rd t = Some (Inr v)" and "2 * length t + 1 \<le> n"
  shows "parse_istream rd n (istream_of t) = Some (Inr v)"
proof -
  from assms(1) have "parse_from string_ops rd (2 * length t + 1) t = Some (Inr v)"
    by (simp add: parse_def parse_fuel_def)
  from parse_from_mono [OF this assms(2)] have "parse_fuel rd n t = Some (Inr v)"
    by (simp add: parse_fuel_def)
  then show ?thesis by (rule parse_istream_sim)
qed

theorem stream_agrees_with_string_witness:
  \<open>parse read_double ''[1, {"a": null}] '' =
     Some (Inr (Array [Number (Decimal False 1 0), Object [(''a'', Null)]]))
   \<and> 2 * length ''[1, {"a": null}] '' + 1 \<le> (40::nat)
   \<and> parse_istream read_double 40 (istream_of ''[1, {"a": null}] '') =
     Some (Inr (Array [Number (Decimal False 1 0), Object [(''a'', Null)]]))\<close>
proof -
  have r: "read_double ''1'' = Decimal False 1 0"
    by (simp add: platform_defs)
  have h1: \<open>parse read_double ''[1, {"a": null}] '' =
     Some (Inr (Array [Number (Decimal False 1 0), Object [(''a'', Null)]]))\<close>
    by (simp add: run_defs eval_nat_numeral r)
  have h2: \<open>2 * length ''[1, {"a": null}] '' + 1 \<le> (40::nat)\<close>
    by simp
  show ?thesis using h1 h2 stream_agrees_with_string [OF h1 h2] by simp
qed

text \<open>
  The agreement is one of values returned, not of failures.  On the truncated literal
  \<^verbatim>\<open>nul\<close> the string cursor reads the terminator and the parser throws, while the stream's
  failed \<^verbatim>\<open>get\<close> leaves the current character \<^verbatim>\<open>l\<close> in place, which completes the literal.
\<close>

lemma truncated_literal_on_stream:
  \<open>parse rd ''nul'' = Some (Inl (exception ''bad json: null''))
   \<and> parse_istream rd 7 (istream_of ''nul'') = Some (Inr Null)\<close>
  by (simp add: parse_istream_def run_defs stream_ops_def iterator_init_def iterator_incr_def
      iterator_peek_def istream_get_def istream_peek_def istream_of_def good_def to_char_def
      eval_nat_numeral Let_def)

section \<open>Rules of the productions on a string\<close>

lemma fuel_mono_le:
  assumes step: "\<And>n. f n = Some r \<Longrightarrow> f (Suc n) = Some r"
    and "f n = Some r" and "n \<le> m"
  shows "f m = Some (r::'a)"
  using assms(3,2)
proof (induction m)
  case 0
  then show ?case by simp
next
  case (Suc m)
  show ?case
  proof (cases "n = Suc m")
    case True
    with Suc.prems show ?thesis by simp
  next
    case False
    with Suc.prems have "n \<le> m" by simp
    from step [OF Suc.IH [OF this Suc.prems(2)]] show ?thesis .
  qed
qed

lemma parse_string_mono_le:
  "parse_string ops n esc rv cur = Some r \<Longrightarrow> n \<le> m \<Longrightarrow> parse_string ops m esc rv cur = Some r"
  by (rule fuel_mono_le [where f = "\<lambda>n. parse_string ops n esc rv cur"]) (auto intro: parse_string_mono)

lemma parse_array_mono_le:
  "parse_array ops rd n rv accept has cur = Some r \<Longrightarrow> n \<le> m \<Longrightarrow>
   parse_array ops rd m rv accept has cur = Some r"
proof (rule fuel_mono_le [where f = "\<lambda>n. parse_array ops rd n rv accept has cur"])
  fix k assume "parse_array ops rd k rv accept has cur = Some r"
  with mono_all [of ops rd k] show "parse_array ops rd (Suc k) rv accept has cur = Some r"
    unfolding mono_at_def by blast
qed

lemma parse_object_mono_le:
  "parse_object ops rd n rv key gk ge cur = Some r \<Longrightarrow> n \<le> m \<Longrightarrow>
   parse_object ops rd m rv key gk ge cur = Some r"
proof (rule fuel_mono_le [where f = "\<lambda>n. parse_object ops rd n rv key gk ge cur"])
  fix k assume "parse_object ops rd k rv key gk ge cur = Some r"
  with mono_all [of ops rd k] show "parse_object ops rd (Suc k) rv key gk ge cur = Some r"
    unfolding mono_at_def by blast
qed

text \<open>The rules of the productions on a string, free of fuel.\<close>

lemma runs_string_done:
  "\<not> esc \<Longrightarrow> runs_string esc rv (CHR 0x22 # cs) (Inr (rv, CHR 0x22 # cs))"
  unfolding runs_string_def by (rule exI [of _ "Suc 0"]) (simp add: parse_string.simps)

lemma runs_string_step:
  assumes "\<not> (c = CHR 0x22 \<and> \<not> esc)"
    and "runs_string (c = CHR 0x5C \<and> \<not> esc) (if c = CHR 0x5C \<and> \<not> esc then rv else rv @ [c]) cs r"
  shows "runs_string esc rv (c # cs) r"
proof -
  from assms(2) obtain n where
    "parse_string string_ops n (c = CHR 0x5C \<and> \<not> esc)
       (if c = CHR 0x5C \<and> \<not> esc then rv else rv @ [c]) cs = Some r"
    unfolding runs_string_def by blast
  moreover have "parse_string string_ops (Suc n) esc rv (c # cs) =
      parse_string string_ops n (c = CHR 0x5C \<and> \<not> esc)
       (if c = CHR 0x5C \<and> \<not> esc then rv else rv @ [c]) cs"
    using assms(1) by (subst parse_string_step) simp_all
  ultimately show ?thesis unfolding runs_string_def by (intro exI [of _ "Suc n"]) simp
qed

lemma runs_parse_string:
  assumes "runs_string False [] cs (Inr (s, cs'))"
  shows "runs_parse rd (CHR 0x22 # cs) (Inr (String s, cs'))"
proof -
  from assms obtain n where "parse_string string_ops n False [] cs = Some (Inr (s, cs'))"
    unfolding runs_string_def by blast
  then have "detail_parse string_ops rd (Suc n) (CHR 0x22 # cs) = Some (Inr (String s, cs'))"
    by (subst detail_parse_quote) (simp_all add: value_of_string_def)
  then show ?thesis unfolding runs_parse_def by blast
qed

lemma runs_parse_array:
  assumes "runs_array rd [] True False cs (Inr (a, cs'))"
  shows "runs_parse rd (CHR ''['' # cs) (Inr (Array a, cs'))"
proof -
  from assms obtain n where "parse_array string_ops rd n [] True False cs = Some (Inr (a, cs'))"
    unfolding runs_array_def by blast
  then have "detail_parse string_ops rd (Suc n) (CHR ''['' # cs) = Some (Inr (Array a, cs'))"
    by (subst detail_parse_array) (simp_all add: value_of_array_def)
  then show ?thesis unfolding runs_parse_def by blast
qed

lemma runs_parse_object:
  assumes "runs_object rd [] [] False False cs (Inr (m, cs'))"
  shows "runs_parse rd (CHR ''{'' # cs) (Inr (Object m, cs'))"
proof -
  from assms obtain n where
    "parse_object string_ops rd n [] [] False False cs = Some (Inr (m, cs'))"
    unfolding runs_object_def by blast
  then have "detail_parse string_ops rd (Suc n) (CHR ''{'' # cs) = Some (Inr (Object m, cs'))"
    by (subst detail_parse_object) (simp_all add: value_of_object_def)
  then show ?thesis unfolding runs_parse_def by blast
qed

lemma runs_parse_number:
  assumes "isdigit c \<or> c = CHR ''-''"
  shows "runs_parse rd (c # cs)
     (Inr (Number (rd (c # takeWhile number_char cs)),
           drop (length (takeWhile number_char cs)) (c # cs)))"
proof -
  have "detail_parse string_ops rd (Suc (Suc (length cs))) (c # cs) =
      parse_number string_ops rd (Suc (length cs)) [] (c # cs)"
    using assms by (subst detail_parse_number) simp_all
  also have "\<dots> = Some (Inr (Number (rd (c # takeWhile number_char cs)),
           drop (length (takeWhile number_char cs)) (c # cs)))"
    by (subst parse_number_string) simp_all
  finally show ?thesis unfolding runs_parse_def by blast
qed

lemma runs_parse_null: "runs_parse rd (''null'' @ cs) (Inr (Null, CHR ''l'' # cs))"
  unfolding runs_parse_def
  by (rule exI [of _ "Suc 0"]) (simp add: detail_parse_null Let_def value_null_def)

lemma runs_parse_true: "runs_parse rd (''true'' @ cs) (Inr (Bool True, CHR ''e'' # cs))"
  unfolding runs_parse_def
  by (rule exI [of _ "Suc 0"]) (simp add: detail_parse_true Let_def value_of_bool_def)

lemma runs_parse_false: "runs_parse rd (''false'' @ cs) (Inr (Bool False, CHR ''e'' # cs))"
  unfolding runs_parse_def
  by (rule exI [of _ "Suc 0"]) (simp add: detail_parse_false Let_def value_of_bool_def)

lemma runs_parse_ws:
  assumes "is_whitespace c" and "cs \<noteq> []" and "runs_parse rd cs r"
  shows "runs_parse rd (c # cs) r"
proof -
  from assms(3) obtain n where "detail_parse string_ops rd n cs = Some r"
    unfolding runs_parse_def by blast
  with assms(1,2) have "detail_parse string_ops rd (Suc n) (c # cs) = Some r"
    by (subst detail_parse_ws) (simp_all add: Let_def)
  then show ?thesis unfolding runs_parse_def by blast
qed

lemma runs_array_close:
  "has \<noteq> accept \<Longrightarrow> runs_array rd rv accept has (CHR '']'' # cs) (Inr (rv, CHR '']'' # cs))"
  unfolding runs_array_def
  by (rule exI [of _ "Suc 0"]) (simp add: parse_array_close is_whitespace_def)

lemma runs_array_ws:
  assumes "is_whitespace c" and "cs \<noteq> []" and "runs_array rd rv accept has cs r"
  shows "runs_array rd rv accept has (c # cs) r"
proof -
  from assms(3) obtain n where "parse_array string_ops rd n rv accept has cs = Some r"
    unfolding runs_array_def by blast
  with assms(1,2) have "parse_array string_ops rd (Suc n) rv accept has (c # cs) = Some r"
    by (subst parse_array_ws) (simp_all add: Let_def)
  then show ?thesis unfolding runs_array_def by blast
qed

lemma runs_array_comma:
  assumes "cs \<noteq> []" and "runs_array rd rv True has cs r"
  shows "runs_array rd rv False has (CHR '','' # cs) r"
proof -
  from assms(2) obtain n where "parse_array string_ops rd n rv True has cs = Some r"
    unfolding runs_array_def by blast
  with assms(1) have "parse_array string_ops rd (Suc n) rv False has (CHR '','' # cs) = Some r"
    by (subst parse_array_comma) (simp_all add: Let_def)
  then show ?thesis unfolding runs_array_def by blast
qed

lemma runs_array_elem:
  assumes "value_start (str_deref cs)"
    and "runs_parse rd cs (Inr (v, c # cs1))" and "cs1 \<noteq> []"
    and "runs_array rd (rv @ [v]) False True cs1 r"
  shows "runs_array rd rv True has cs r"
proof -
  from assms(2) obtain n1 where "detail_parse string_ops rd n1 cs = Some (Inr (v, c # cs1))"
    unfolding runs_parse_def by blast
  moreover from assms(4) obtain n2 where
    "parse_array string_ops rd n2 (rv @ [v]) False True cs1 = Some r"
    unfolding runs_array_def by blast
  ultimately have 1: "detail_parse string_ops rd (max n1 n2) cs = Some (Inr (v, c # cs1))"
    and 2: "parse_array string_ops rd (max n1 n2) (rv @ [v]) False True cs1 = Some r"
    by (auto intro: detail_parse_mono parse_array_mono_le)
  from assms(1) have "\<not> is_whitespace (deref string_ops cs)"
    "\<not> (deref string_ops cs = CHR '']'' \<and> has \<noteq> True)"
    by (auto simp: value_start_def is_whitespace_def isdigit_def)
  then have "parse_array string_ops rd (Suc (max n1 n2)) rv True has cs = Some r"
    using 1 2 assms(3) by (subst parse_array_elem) (simp_all add: Let_def)
  then show ?thesis unfolding runs_array_def by blast
qed

lemma runs_object_close:
  "runs_object rd rv key False ge (CHR ''}'' # cs) (Inr (rv, CHR ''}'' # cs))"
  unfolding runs_object_def
  by (rule exI [of _ "Suc 0"]) (simp add: parse_object_close)

lemma runs_object_ws:
  assumes "is_whitespace c" and "cs \<noteq> []" and "runs_object rd rv key gk ge cs r"
  shows "runs_object rd rv key gk ge (c # cs) r"
proof -
  from assms(3) obtain n where "parse_object string_ops rd n rv key gk ge cs = Some r"
    unfolding runs_object_def by blast
  moreover from assms(1) have "\<not> (deref string_ops (c # cs) = CHR ''}'' \<and> \<not> gk)"
    by (auto simp: is_whitespace_def)
  ultimately have "parse_object string_ops rd (Suc n) rv key gk ge (c # cs) = Some r"
    using assms(1,2) by (subst parse_object_ws) (simp_all add: Let_def)
  then show ?thesis unfolding runs_object_def by blast
qed

lemma runs_object_comma:
  assumes "cs \<noteq> []" and "runs_object rd rv key False True cs r"
  shows "runs_object rd rv key False True (CHR '','' # cs) r"
proof -
  from assms(2) obtain n where "parse_object string_ops rd n rv key False True cs = Some r"
    unfolding runs_object_def by blast
  with assms(1) have "parse_object string_ops rd (Suc n) rv key False True (CHR '','' # cs) = Some r"
    by (subst parse_object_comma) (simp_all add: Let_def)
  then show ?thesis unfolding runs_object_def by blast
qed

lemma runs_object_key:
  assumes "runs_string False [] cs (Inr (k, c # cs1))" and "cs1 \<noteq> []"
    and "runs_object rd rv k True ge cs1 r"
  shows "runs_object rd rv key gk ge (CHR 0x22 # cs) r"
proof -
  from assms(1) obtain n1 where "parse_string string_ops n1 False [] cs = Some (Inr (k, c # cs1))"
    unfolding runs_string_def by blast
  moreover from assms(3) obtain n2 where
    "parse_object string_ops rd n2 rv k True ge cs1 = Some r"
    unfolding runs_object_def by blast
  ultimately have 1: "parse_string string_ops (max n1 n2) False [] cs = Some (Inr (k, c # cs1))"
    and 2: "parse_object string_ops rd (max n1 n2) rv k True ge cs1 = Some r"
    by (auto intro: parse_string_mono_le parse_object_mono_le)
  have "parse_object string_ops rd (Suc (max n1 n2)) rv key gk ge (CHR 0x22 # cs) = Some r"
    using 1 2 assms(2) by (subst parse_object_key) (simp_all add: Let_def)
  then show ?thesis unfolding runs_object_def by blast
qed

lemma runs_object_value:
  assumes "runs_parse rd cs (Inr (v, c # cs1))" and "cs1 \<noteq> []"
    and "runs_object rd (map_assign rv key v) key False True cs1 r"
  shows "runs_object rd rv key True ge (CHR '':'' # cs) r"
proof -
  from assms(1) obtain n1 where "detail_parse string_ops rd n1 cs = Some (Inr (v, c # cs1))"
    unfolding runs_parse_def by blast
  moreover from assms(3) obtain n2 where
    "parse_object string_ops rd n2 (map_assign rv key v) key False True cs1 = Some r"
    unfolding runs_object_def by blast
  ultimately have 1: "detail_parse string_ops rd (max n1 n2) cs = Some (Inr (v, c # cs1))"
    and 2: "parse_object string_ops rd (max n1 n2) (map_assign rv key v) key False True cs1 = Some r"
    by (auto intro: detail_parse_mono parse_object_mono_le)
  have "parse_object string_ops rd (Suc (max n1 n2)) rv key True ge (CHR '':'' # cs) = Some r"
    using 1 2 assms(2) by (subst parse_object_value) (simp_all add: Let_def)
  then show ?thesis unfolding runs_object_def by blast
qed

lemma runs_parse_top:
  assumes "runs_parse rd s (Inr (v, [c]))"
  shows "parse rd s = Some (Inr v)"
proof -
  from assms obtain n where "detail_parse string_ops rd n s = Some (Inr (v, [c]))"
    unfolding runs_parse_def by blast
  then have "detail_parse string_ops rd (Suc n) s = Some (Inr (v, [c]))"
    by (rule detail_parse_mono) simp
  moreover have "skip_trailing string_ops (Suc n) [c] = Some (Inr ((), []))"
    by (subst skip_trailing_stop) simp_all
  ultimately have "parse_fuel rd (Suc n) s = Some (Inr v)"
    by (simp add: parse_fuel_def parse_from_def)
  then show ?thesis by (rule parse_fuel_irrelevant)
qed

section \<open>Rendered values parse back\<close>

lemma parses_asD:
  assumes "parses_as rd t v" and "\<not> number_char (str_deref rest)"
  shows "runs_parse rd (t @ rest) (Inr (v, last t # rest))"
    and "t \<noteq> []" and "value_start (str_deref (t @ rest))"
  using assms by (cases t; auto simp: parses_as_def)+

lemma value_start_not_ws: "value_start c \<Longrightarrow> \<not> is_whitespace c"
  by (auto simp: value_start_def is_whitespace_def isdigit_def)

lemma runs_string_plain:
  assumes "c \<noteq> CHR 0x22" and "c \<noteq> CHR 0x5C" and "runs_string False (rv @ [c]) cs r"
  shows "runs_string False rv (c # cs) r"
  by (rule runs_string_step) (use assms in simp_all)

lemma runs_string_escaped:
  assumes "runs_string False (rv @ [c]) cs r"
  shows "runs_string False rv (CHR 0x5C # c # cs) r"
proof (rule runs_string_step)
  show "\<not> (CHR 0x5C = CHR 0x22 \<and> \<not> False)" by simp
  have "runs_string True rv (c # cs) r"
    by (rule runs_string_step) (use assms in simp_all)
  then show "runs_string (CHR 0x5C = CHR 0x5C \<and> \<not> False)
     (if CHR 0x5C = CHR 0x5C \<and> \<not> False then rv else rv @ [CHR 0x5C]) (c # cs) r"
    by simp
qed

lemma runs_string_escape:
  "runs_string False rv (escape s @ CHR 0x22 # rest) (Inr (rv @ s, CHR 0x22 # rest))"
proof (induction s arbitrary: rv)
  case Nil
  show ?case by (simp add: runs_string_done)
next
  case (Cons c s)
  from Cons.IH [of "rv @ [c]"]
  have IH: "runs_string False (rv @ [c]) (escape s @ CHR 0x22 # rest) (Inr (rv @ c # s, CHR 0x22 # rest))"
    by simp
  show ?case
  proof (cases "c = CHR 0x22 \<or> c = CHR 0x5C")
    case True
    with runs_string_escaped [OF IH] show ?thesis by simp
  next
    case False
    with runs_string_plain [OF _ _ IH] show ?thesis by simp
  qed
qed

lemma runs_parse_skip:
  "list_all is_whitespace p \<Longrightarrow> cs \<noteq> [] \<Longrightarrow> runs_parse rd cs r \<Longrightarrow> runs_parse rd (p @ cs) r"
  by (induction p) (auto intro: runs_parse_ws)

lemma runs_object_skip:
  "list_all is_whitespace p \<Longrightarrow> cs \<noteq> [] \<Longrightarrow> runs_object rd rv key gk ge cs r \<Longrightarrow>
   runs_object rd rv key gk ge (p @ cs) r"
  by (induction p) (auto intro: runs_object_ws)

lemma takeWhile_token:
  "list_all P ds \<Longrightarrow> \<not> P (str_deref rest) \<Longrightarrow> takeWhile P (ds @ rest) = ds"
  by (induction ds) (auto simp: str_deref_def split: list.splits)

lemma drop_to_last: "drop (length ds) (d # ds @ rest) = last (d # ds) # rest"
  by (induction ds arbitrary: d) auto

lemma reparses_Number:
  assumes "number_token (sh x)" and "rd (sh x) = x"
  shows "parses_as rd (json sh (Number x)) (Number x)"
proof -
  from assms(1) obtain d ds where s: "sh x = d # ds" and d: "isdigit d \<or> d = CHR ''-''"
    and ds: "list_all number_char ds"
    by (auto simp: number_token_def split: list.splits)
  have "runs_parse rd (json sh (Number x) @ rest) (Inr (Number x, last (json sh (Number x)) # rest))"
    if "\<not> number_char (str_deref rest)" for rest
    using runs_parse_number [OF d, of rd "ds @ rest"] takeWhile_token [OF ds that] assms(2) s
      drop_to_last [of ds d rest]
    by simp
  with s d show ?thesis by (auto simp: parses_as_def value_start_def)
qed

lemma reparses_String: "parses_as rd (json sh (String s)) (String s)"
proof -
  have "runs_parse rd (json sh (String s) @ rest) (Inr (String s, last (json sh (String s)) # rest))"
    for rest
    using runs_parse_string [OF runs_string_escape [of "[]" s rest], of rd] by simp
  then show ?thesis by (simp add: parses_as_def value_start_def)
qed

lemma reparses_Null: "parses_as rd (json sh Null) Null"
  using runs_parse_null [of rd] by (simp add: parses_as_def value_start_def)

lemma reparses_Bool: "parses_as rd (json sh (Bool b)) (Bool b)"
  using runs_parse_true [of rd] runs_parse_false [of rd]
  by (cases b) (simp_all add: parses_as_def value_start_def bool_branch_def)

lemma join_Cons: "join sep (x # xs) = x @ concat (map (\<lambda>y. sep @ y) xs)"
  by (induction xs arbitrary: x) auto

lemma json_Array_Cons:
  "json sh (Array (v # vs)) = CHR ''['' # json sh v @ concat (map (\<lambda>v. '', '' @ json sh v) vs) @ '']''"
  by (simp add: json_Array join_Cons comp_def del: json.simps)

lemma member_text_json:
  "member_text json_layout (fst i, json sh (snd i), snd i) = render_pair sh i"
  by (simp add: member_text_def json_layout_def render_pair_def)

lemma json_Object_text: "json sh (Object m) = object_text json_layout (json_members sh m)"
proof (cases m)
  case Nil
  then show ?thesis by (simp add: object_text_def json_members_def json_layout_def)
next
  case (Cons i m')
  have "members_tail json_layout (json_members sh m') =
      concat (map (\<lambda>i. '', '' @ render_pair sh i) m') @ ''}''"
    unfolding members_tail_def json_members_def
    by (simp add: comp_def member_text_json) (simp add: json_layout_def)
  moreover have "json sh (Object m) =
      CHR ''{'' # render_pair sh i @ concat (map (\<lambda>i. '', '' @ render_pair sh i) m') @ ''}''"
    using Cons by (simp add: json_Object join_Cons comp_def del: json.simps)
  ultimately show ?thesis
    using Cons
    by (simp add: object_text_def json_members_def member_text_json del: json.simps)
      (simp add: json_layout_def)
qed

lemma entries_json_members: "entries (json_members sh m) = m"
  by (simp add: entries_def json_members_def comp_def)

lemma array_tail:
  assumes "\<forall>v\<in>set vs. parses_as rd (json sh v) v"
  shows "runs_array rd rv False True
           (concat (map (\<lambda>v. '', '' @ json sh v) vs) @ CHR '']'' # rest)
           (Inr (rv @ vs, CHR '']'' # rest))"
  using assms
proof (induction vs arbitrary: rv)
  case Nil
  show ?case by (simp add: runs_array_close)
next
  case (Cons v vs)
  let ?T = "concat (map (\<lambda>v. '', '' @ json sh v) vs) @ CHR '']'' # rest"
  have T: "?T \<noteq> []" "\<not> number_char (str_deref ?T)"
    by (cases vs; simp add: number_char_def isdigit_def)+
  from Cons.prems have v: "parses_as rd (json sh v) v" by simp
  from Cons.IH [of "rv @ [v]"] Cons.prems
  have tail: "runs_array rd (rv @ [v]) False True ?T (Inr (rv @ v # vs, CHR '']'' # rest))"
    by simp
  note rv = parses_asD [OF v T(2)]
  have "runs_array rd rv True True (json sh v @ ?T) (Inr (rv @ v # vs, CHR '']'' # rest))"
    by (rule runs_array_elem [OF rv(3) rv(1) T(1) tail])
  then have "runs_array rd rv True True (CHR '' '' # json sh v @ ?T) (Inr (rv @ v # vs, CHR '']'' # rest))"
    by (rule runs_array_ws [rotated 2]) (simp_all add: is_whitespace_def)
  then have "runs_array rd rv False True (CHR '','' # CHR '' '' # json sh v @ ?T)
      (Inr (rv @ v # vs, CHR '']'' # rest))"
    by (rule runs_array_comma [rotated]) simp
  then show ?case by simp
qed

lemma reparses_Array:
  assumes "\<forall>v\<in>set vs. parses_as rd (json sh v) v"
  shows "parses_as rd (json sh (Array vs)) (Array vs)"
proof -
  have "runs_parse rd (json sh (Array vs) @ rest) (Inr (Array vs, last (json sh (Array vs)) # rest))"
    for rest
  proof (cases vs)
    case Nil
    have "runs_array rd [] True False (CHR '']'' # rest) (Inr ([], CHR '']'' # rest))"
      by (rule runs_array_close) simp
    from runs_parse_array [OF this] Nil show ?thesis by simp
  next
    case (Cons v vs')
    let ?T = "concat (map (\<lambda>v. '', '' @ json sh v) vs') @ CHR '']'' # rest"
    have T: "?T \<noteq> []" "\<not> number_char (str_deref ?T)"
      by (cases vs'; simp add: number_char_def isdigit_def)+
    from assms Cons have v: "parses_as rd (json sh v) v" and vs': "\<forall>v\<in>set vs'. parses_as rd (json sh v) v"
      by simp_all
    note rv = parses_asD [OF v T(2)]
    from array_tail [OF vs', of "[v]" rest]
    have "runs_array rd ([] @ [v]) False True ?T (Inr (v # vs', CHR '']'' # rest))" by simp
    from runs_array_elem [OF rv(3) rv(1) T(1) this]
    have "runs_array rd [] True False (json sh v @ ?T) (Inr (v # vs', CHR '']'' # rest))" .
    from runs_parse_array [OF this] Cons show ?thesis
      by (simp add: json_Array_Cons del: json.simps)
  qed
  then show ?thesis by (cases vs) (simp_all add: parses_as_def value_start_def)
qed

lemma runs_array_skip:
  "list_all is_whitespace p \<Longrightarrow> cs \<noteq> [] \<Longrightarrow> runs_array rd rv accept has cs r \<Longrightarrow>
   runs_array rd rv accept has (p @ cs) r"
  by (induction p) (auto intro: runs_array_ws)

lemma object_member:
  assumes v: "parses_as rd t v" and l: "layout_ok l"
    and T: "T \<noteq> []" "\<not> number_char (str_deref T)"
    and tail: "runs_object rd (map_assign rv k v) k False True T r"
  shows "runs_object rd rv key False ge (member_text l (k, t, v) @ T) r"
proof -
  from l have p: "list_all is_whitespace (after_key l)" "list_all is_whitespace (after_colon l)"
    by (simp_all add: layout_ok_def)
  note rv = parses_asD [OF v T(2)]
  have "runs_parse rd (after_colon l @ t @ T) (Inr (v, last t # T))"
    using rv(2) by (intro runs_parse_skip [OF p(2) _ rv(1)]) simp
  then have "runs_object rd rv k True ge (CHR '':'' # after_colon l @ t @ T) r"
    by (rule runs_object_value [OF _ T(1) tail])
  then have 1: "runs_object rd rv k True ge (after_key l @ CHR '':'' # after_colon l @ t @ T) r"
    by (intro runs_object_skip [OF p(1)]) simp_all
  have "runs_string False [] (escape k @ CHR 0x22 # after_key l @ CHR '':'' # after_colon l @ t @ T)
      (Inr (k, CHR 0x22 # after_key l @ CHR '':'' # after_colon l @ t @ T))"
    using runs_string_escape [of "[]" k] by simp
  from runs_object_key [OF this _ 1]
  have "runs_object rd rv key False ge
      (CHR 0x22 # escape k @ CHR 0x22 # after_key l @ CHR '':'' # after_colon l @ t @ T) r"
    by simp
  then show ?thesis by (simp add: member_text_def)
qed

lemma members_tail_start:
  assumes "layout_ok l"
  shows "members_tail l ms @ rest \<noteq> []" and "\<not> number_char (str_deref (members_tail l ms @ rest))"
proof -
  from assms have p: "list_all is_whitespace (after_value l)" by (simp add: layout_ok_def)
  show "members_tail l ms @ rest \<noteq> []" by (simp add: members_tail_def)
  show "\<not> number_char (str_deref (members_tail l ms @ rest))"
  proof (cases "after_value l")
    case Nil
    then show ?thesis
      by (cases ms) (simp_all add: members_tail_def number_char_def isdigit_def)
  next
    case (Cons c cs)
    with p have "is_whitespace c" by simp
    then have "\<not> number_char c" by (auto simp: is_whitespace_def number_char_def isdigit_def)
    with Cons show ?thesis by (cases ms) (simp_all add: members_tail_def)
  qed
qed

lemma members_tail_Cons:
  "members_tail l (m # ms) =
     after_value l @ CHR '','' # after_comma l @ member_text l m @ members_tail l ms"
  by (simp add: members_tail_def)

lemma object_tail:
  assumes "\<forall>m\<in>set ms. parses_as rd (fst (snd m)) (snd (snd m))" and l: "layout_ok l"
  shows "runs_object rd rv key False True (members_tail l ms @ rest)
           (Inr (fold (\<lambda>i m. map_assign m (fst i) (snd i)) (entries ms) rv, CHR ''}'' # rest))"
  using assms(1)
proof (induction ms arbitrary: rv key)
  case Nil
  from l have p: "list_all is_whitespace (after_value l)" by (simp add: layout_ok_def)
  have "runs_object rd rv key False True (CHR ''}'' # rest) (Inr (rv, CHR ''}'' # rest))"
    by (rule runs_object_close)
  then have "runs_object rd rv key False True (after_value l @ CHR ''}'' # rest)
      (Inr (rv, CHR ''}'' # rest))"
    by (intro runs_object_skip [OF p]) simp_all
  then show ?case by (simp add: members_tail_def entries_def)
next
  case (Cons m ms)
  obtain k t v where m: "m = (k, t, v)" by (cases m)
  from l have p: "list_all is_whitespace (after_value l)" "list_all is_whitespace (after_comma l)"
    by (simp_all add: layout_ok_def)
  let ?T = "members_tail l ms @ rest"
  let ?r = "Inr (fold (\<lambda>i m. map_assign m (fst i) (snd i)) (entries (m # ms)) rv, CHR ''}'' # rest)"
  note T = members_tail_start [OF l, of ms rest]
  from Cons.prems m have v: "parses_as rd t v" by simp
  from Cons.IH [of "map_assign rv k v" k] Cons.prems m
  have tail: "runs_object rd (map_assign rv k v) k False True ?T ?r"
    by (simp add: entries_def)
  have ne: "member_text l (k, t, v) @ ?T \<noteq> []" by (simp add: member_text_def)
  have "runs_object rd rv key False True (member_text l (k, t, v) @ ?T) ?r"
    by (rule object_member [OF v l T tail])
  then have "runs_object rd rv key False True (after_comma l @ member_text l (k, t, v) @ ?T) ?r"
    by (rule runs_object_skip [OF p(2) ne])
  then have "runs_object rd rv key False True
      (CHR '','' # after_comma l @ member_text l (k, t, v) @ ?T) ?r"
    using ne by (intro runs_object_comma) simp_all
  then have "runs_object rd rv key False True
      (after_value l @ CHR '','' # after_comma l @ member_text l (k, t, v) @ ?T) ?r"
    by (intro runs_object_skip [OF p(1)]) simp_all
  with m show ?case by (simp add: members_tail_Cons)
qed

lemma object_text_runs:
  assumes ms: "\<forall>m\<in>set ms. parses_as rd (fst (snd m)) (snd (snd m))" and l: "layout_ok l"
  shows "runs_parse rd (object_text l ms @ rest)
           (Inr (Object (object_of (entries ms)), CHR ''}'' # rest))"
proof -
  from l have p: "list_all is_whitespace (after_brace l)" by (simp add: layout_ok_def)
  have "runs_object rd [] [] False False
      (case ms of [] \<Rightarrow> ''}'' @ rest | m # ms' \<Rightarrow> member_text l m @ members_tail l ms' @ rest)
      (Inr (object_of (entries ms), CHR ''}'' # rest))"
  proof (cases ms)
    case Nil
    have "runs_object rd [] [] False False (CHR ''}'' # rest) (Inr ([], CHR ''}'' # rest))"
      by (rule runs_object_close)
    with Nil show ?thesis by (simp add: object_of_def entries_def)
  next
    case (Cons m ms')
    obtain k t v where m: "m = (k, t, v)" by (cases m)
    from ms Cons m have v: "parses_as rd t v"
      and ms': "\<forall>m\<in>set ms'. parses_as rd (fst (snd m)) (snd (snd m))"
      by simp_all
    have "runs_object rd [] [] False False (member_text l (k, t, v) @ members_tail l ms' @ rest)
      (Inr (fold (\<lambda>i m. map_assign m (fst i) (snd i)) (entries ms') (map_assign [] k v),
            CHR ''}'' # rest))"
      by (rule object_member [OF v l members_tail_start [OF l] object_tail [OF ms' l]])
    with Cons m show ?thesis by (simp add: object_of_def entries_def)
  qed
  then have "runs_object rd [] [] False False
      (after_brace l @
        (case ms of [] \<Rightarrow> ''}'' @ rest | m # ms' \<Rightarrow> member_text l m @ members_tail l ms' @ rest))
      (Inr (object_of (entries ms), CHR ''}'' # rest))"
    by (intro runs_object_skip [OF p]) (simp_all add: member_text_def split: list.splits)
  from runs_parse_object [OF this] show ?thesis
    by (cases ms) (simp_all add: object_text_def)
qed

lemma last_members_tail: "last (members_tail l ms) = CHR ''}''"
  by (simp add: members_tail_def)

lemma last_object_text: "last (object_text l ms) = CHR ''}''"
  by (cases ms) (simp_all add: object_text_def last_members_tail members_tail_def member_text_def)

lemma parses_as_object_text:
  assumes "\<forall>m\<in>set ms. parses_as rd (fst (snd m)) (snd (snd m))" and "layout_ok l"
  shows "parses_as rd (object_text l ms) (Object (object_of (entries ms)))"
  using object_text_runs [OF assms]
  by (simp add: parses_as_def last_object_text) (simp add: object_text_def value_start_def)

lemma map_assign_append:
  "\<forall>i\<in>set m. fst i < k \<Longrightarrow> map_assign m k v = m @ [(k, v)]"
  by (induction m k v rule: map_assign.induct) auto

lemma fold_assign_sorted:
  "sorted_wrt (<) (map fst (rv @ es)) \<Longrightarrow>
   fold (\<lambda>i m. map_assign m (fst i) (snd i)) es rv = rv @ es"
proof (induction es arbitrary: rv)
  case Nil
  show ?case by simp
next
  case (Cons i es)
  from Cons.prems have "\<forall>j\<in>set rv. fst j < fst i"
    by (auto simp: sorted_wrt_append)
  then have "map_assign rv (fst i) (snd i) = rv @ [i]"
    by (simp add: map_assign_append)
  with Cons.IH [of "rv @ [i]"] Cons.prems show ?case by simp
qed

lemma object_of_map: "is_map m \<Longrightarrow> object_of m = m"
  using fold_assign_sorted [of "[]" m] by (simp add: is_map_def object_of_def)

lemma reparses_Object:
  assumes "\<forall>i\<in>set m. parses_as rd (json sh (snd i)) (snd i)" and "is_map m"
  shows "parses_as rd (json sh (Object m)) (Object m)"
proof -
  have "layout_ok json_layout" by (simp add: layout_ok_def json_layout_def is_whitespace_def)
  moreover from assms(1)
  have "\<forall>m\<in>set (json_members sh m). parses_as rd (fst (snd m)) (snd (snd m))"
    by (simp add: json_members_def)
  ultimately have "parses_as rd (object_text json_layout (json_members sh m))
      (Object (object_of (entries (json_members sh m))))"
    by (intro parses_as_object_text)
  with assms(2) show ?thesis
    by (simp add: json_Object_text entries_json_members object_of_map del: json.simps)
qed

lemma well_formed_array_iff: "well_formed_array vs = (\<forall>v\<in>set vs. well_formed v)"
  by (induction vs) auto

lemma well_formed_object_iff: "well_formed_object m = (\<forall>i\<in>set m. well_formed (snd i))"
  by (induction m) auto

lemma numbers_ok_array_iff: "numbers_ok_array rd sh vs = (\<forall>v\<in>set vs. numbers_ok rd sh v)"
  by (induction vs) auto

lemma numbers_ok_object_iff: "numbers_ok_object rd sh m = (\<forall>i\<in>set m. numbers_ok rd sh (snd i))"
  by (induction m) auto

lemma reparses_value: "well_formed v \<Longrightarrow> numbers_ok rd sh v \<Longrightarrow> parses_as rd (json sh v) v"
proof (induction v)
  case Null
  show ?case by (rule reparses_Null)
next
  case (Bool b)
  show ?case by (rule reparses_Bool)
next
  case (Number x)
  then show ?case using reparses_Number [of sh x rd] by simp
next
  case (String s)
  show ?case by (rule reparses_String)
next
  case (Array vs)
  then show ?case
    by (intro reparses_Array) (simp add: well_formed_array_iff numbers_ok_array_iff)
next
  case (Object m)
  have "\<forall>i\<in>set m. parses_as rd (json sh (snd i)) (snd i)"
  proof
    fix i assume i: "i \<in> set m"
    obtain k v where kv: "i = (k, v)" by (cases i)
    from Object.prems i kv have "well_formed v" "numbers_ok rd sh v"
      by (auto simp: well_formed_object_iff numbers_ok_object_iff)
    with Object.IH [of i v] i kv show "parses_as rd (json sh (snd i)) (snd i)" by simp
  qed
  with Object.prems show ?case by (intro reparses_Object) simp_all
qed

lemma parses_as_parse:
  assumes "parses_as rd t v"
  shows "parse rd t = Some (Inr v)"
  using parses_asD(1) [OF assms, of "[]"] by (auto intro: runs_parse_top)

lemma parse_json:
  assumes "well_formed v" and "numbers_ok rd sh v"
  shows "parse rd (json sh v) = Some (Inr v)"
  by (rule parses_as_parse) (rule reparses_value [OF assms])

lemma parses_as_number_token:
  assumes "number_token t"
  shows "parses_as rd t (Number (rd t))"
proof -
  from assms obtain d ds where s: "t = d # ds" and d: "isdigit d \<or> d = CHR ''-''"
    and ds: "list_all number_char ds"
    by (auto simp: number_token_def split: list.splits)
  have "runs_parse rd (t @ rest) (Inr (Number (rd t), last t # rest))"
    if "\<not> number_char (str_deref rest)" for rest
    using runs_parse_number [OF d, of rd "ds @ rest"] takeWhile_token [OF ds that] s
      drop_to_last [of ds d rest]
    by simp
  with s d show ?thesis by (auto simp: parses_as_def value_start_def)
qed

lemma map_of_map_assign: "map_of (map_assign m k v) = (map_of m)(k \<mapsto> v)"
  by (induction m k v rule: map_assign.induct) (auto simp: fun_eq_iff)

lemma map_of_fold_assign:
  "map_of (fold (\<lambda>i m. map_assign m (fst i) (snd i)) es rv) = map_of rv ++ map_of (rev es)"
proof (induction es arbitrary: rv)
  case Nil
  show ?case by simp
next
  case (Cons i es)
  show ?case
    by (cases i) (simp add: Cons.IH map_of_map_assign fun_eq_iff map_add_def split: option.splits)
qed

lemma map_of_object_of: "map_of (object_of es) = map_of (rev es)"
  by (simp add: object_of_def map_of_fold_assign)

lemma filter_key_single:
  "distinct (map fst m) \<Longrightarrow> map_of m k = Some v \<Longrightarrow> filter (\<lambda>i. fst i = k) m = [(k, v)]"
proof (induction m)
  case Nil
  then show ?case by simp
next
  case (Cons i m)
  obtain a b where i: "i = (a, b)" by (cases i)
  show ?case
  proof (cases "a = k")
    case True
    from Cons.prems(1) i True have "k \<notin> fst ` set m" by simp
    then have "filter (\<lambda>i. fst i = k) m = []"
      unfolding filter_empty_conv by (metis image_eqI)
    with True Cons.prems(2) i show ?thesis by simp
  next
    case False
    with Cons i show ?thesis by simp
  qed
qed

lemma object_of_last_wins:
  assumes "es = es1 @ (k, v) # es2" and "k \<notin> fst ` set es2"
  shows "filter (\<lambda>i. fst i = k) (object_of es) = [(k, v)]"
proof -
  from is_map_object_of [of es] have "distinct (map fst (object_of es))"
    by (simp add: is_map_def strict_sorted_iff)
  moreover from assms(2) have "map_of (rev es2) k = None"
    by (simp add: map_of_eq_None_iff)
  with assms(1) have "map_of (object_of es) k = Some v"
    by (simp add: map_of_object_of map_add_def)
  ultimately show ?thesis by (rule filter_key_single)
qed

text \<open>
  Claim C10.  Take any object text: members separated by commas, each a key in double
  quotes, a colon and a text that parses as a value, with any whitespace between them.
  \<^verbatim>\<open>parse\<close> returns the object that the assignments \<^verbatim>\<open>rv[key] = value\<close> build in the order
  of the text.  For a key of the text, whether it occurs once or several times, that
  object has one entry, and the entry holds the value of the last member with that key.
  On \<open>{"a":1,"a":2}\<close> the result is the object with the one entry \<open>a\<close>, the number read
  from \<open>2\<close>.
\<close>

theorem duplicate_keys:
  assumes "\<forall>m\<in>set ms. parses_as rd (fst (snd m)) (snd (snd m))" and "layout_ok l"
    and "entries ms = es1 @ (k, v) # es2" and "k \<notin> fst ` set es2"
  shows \<open>parse rd (object_text l ms) = Some (Inr (Object (object_of (entries ms))))
       \<and> filter (\<lambda>i. fst i = k) (object_of (entries ms)) = [(k, v)]
       \<and> parse rd ''{"a":1,"a":2}'' = Some (Inr (Object [(''a'', Number (rd ''2''))]))\<close>
proof -
  have "parse rd (object_text l ms) = Some (Inr (Object (object_of (entries ms))))"
    by (rule parses_as_parse) (rule parses_as_object_text [OF assms(1,2)])
  moreover have "filter (\<lambda>i. fst i = k) (object_of (entries ms)) = [(k, v)]"
    by (rule object_of_last_wins [OF assms(3,4)])
  moreover have \<open>parse rd ''{"a":1,"a":2}'' = Some (Inr (Object [(''a'', Number (rd ''2''))]))\<close>
    by (simp add: run_defs eval_nat_numeral)
  ultimately show ?thesis by simp
qed

theorem duplicate_keys_witness:
  \<open>object_text compact
      [(''a'', ''1'', Number (Decimal False 1 0)), (''b'', ''null'' , Null),
       (''a'', ''2'', Number (Decimal False 2 0))] = ''{"a":1,"b":null,"a":2}''
   \<and> parse read_double ''{"a":1,"b":null,"a":2}'' =
       Some (Inr (Object [(''a'', Number (Decimal False 2 0)), (''b'', Null)]))
   \<and> filter (\<lambda>i. fst i = ''a'') [(''a'', Number (Decimal False 2 0)), (''b'', Null)]
       = [(''a'', Number (Decimal False 2 0))]
   \<and> parse read_double ''{"a":1,"a":2}'' = Some (Inr (Object [(''a'', Number (Decimal False 2 0))]))\<close>
proof -
  let ?ms = "[(''a'', ''1'', Number (Decimal False 1 0)), (''b'', ''null'' , Null),
       (''a'', ''2'', Number (Decimal False 2 0))]"
  have r: "read_double ''1'' = Decimal False 1 0" "read_double ''2'' = Decimal False 2 0"
    by (simp_all add: platform_defs)
  have "parses_as read_double ''1'' (Number (read_double ''1''))"
    "parses_as read_double ''2'' (Number (read_double ''2''))"
    by (rule parses_as_number_token, simp add: number_token_def isdigit_def)+
  moreover have "parses_as read_double (json show_double Null) Null"
    by (rule reparses_Null)
  ultimately have h1: "\<forall>m\<in>set ?ms. parses_as read_double (fst (snd m)) (snd (snd m))"
    by (simp add: r)
  have h2: "layout_ok compact" by (simp add: layout_ok_def compact_def)
  have h3: "entries ?ms = [(''a'', Number (Decimal False 1 0)), (''b'', Null)]
      @ (''a'', Number (Decimal False 2 0)) # []"
    by (simp add: entries_def)
  have h4: "''a'' \<notin> fst ` set ([] :: (string \<times> decimal jvalue) list)" by simp
  have t: \<open>object_text compact ?ms = ''{"a":1,"b":null,"a":2}''\<close>
    by (simp add: object_text_def members_tail_def member_text_def compact_def)
  have o: "object_of (entries ?ms) = [(''a'', Number (Decimal False 2 0)), (''b'', Null)]"
    by (simp add: object_of_def entries_def)
  from duplicate_keys [OF h1 h2 h3 h4] show ?thesis
    unfolding t o by (simp add: r)
qed

text \<open>
  Claim C1, as amended.  When \<^verbatim>\<open>parse\<close> returns a value on a text and the platform writes
  every number of the value as a number token from which it reads the same number back,
  then \<^verbatim>\<open>parse\<close> on the rendering of the value returns the same value.  (Objects are kept
  in key order, so equality of values does not depend on the order of the keys in the
  text.)
\<close>

theorem round_trip:
  assumes "parse rd t = Some (Inr v)" and "numbers_ok rd sh v"
  shows "parse rd (json sh v) = Some (Inr v)"
  using parse_json [OF parse_well_formed [OF assms(1)] assms(2)] .

theorem round_trip_witness:
  \<open>parse read_double ''{"b": [3, 2.5, true], "a": {"k": "v"}}'' =
     Some (Inr (Object [(''a'', Object [(''k'', String ''v'')]),
                        (''b'', Array [Number (Decimal False 3 0), Number (Decimal False 25 (- 1)),
                                        Bool True])]))
   \<and> numbers_ok read_double show_double
       (Object [(''a'', Object [(''k'', String ''v'')]),
                (''b'', Array [Number (Decimal False 3 0), Number (Decimal False 25 (- 1)),
                                Bool True])])
   \<and> json show_double
       (Object [(''a'', Object [(''k'', String ''v'')]),
                (''b'', Array [Number (Decimal False 3 0), Number (Decimal False 25 (- 1)),
                                Bool True])]) = ''{"a": {"k": "v"}, "b": [3, 2.5, true]}''
   \<and> parse read_double ''{"a": {"k": "v"}, "b": [3, 2.5, true]}'' =
     Some (Inr (Object [(''a'', Object [(''k'', String ''v'')]),
                        (''b'', Array [Number (Decimal False 3 0), Number (Decimal False 25 (- 1)),
                                        Bool True])]))\<close>
proof -
  let ?v = "Object [(''a'', Object [(''k'', String ''v'')]),
                (''b'', Array [Number (Decimal False 3 0), Number (Decimal False 25 (- 1)),
                                Bool True])]"
  have r: "read_double ''3'' = Decimal False 3 0" "read_double ''2.5'' = Decimal False 25 (- 1)"
    by (simp_all add: platform_defs)
  have s: "show_double (Decimal False 3 0) = ''3''" "show_double (Decimal False 25 (- 1)) = ''2.5''"
    by (simp_all add: platform_defs)
  have h1: \<open>parse read_double ''{"b": [3, 2.5, true], "a": {"k": "v"}}'' = Some (Inr ?v)\<close>
    by (simp add: run_defs eval_nat_numeral r)
  have h2: "numbers_ok read_double show_double ?v"
    by (simp add: r s number_token_def isdigit_def number_char_def)
  have j: \<open>json show_double ?v = ''{"a": {"k": "v"}, "b": [3, 2.5, true]}''\<close>
    by (simp add: s comma_branch_def bool_branch_def)
  note rt = round_trip [OF h1 h2, unfolded j]
  from rt h1 h2 j show ?thesis by (intro conjI)
qed

text \<open>
  Claim C1 as stated fails where a number has more than six significant digits: the
  platform writes 1234567 as \<open>1.23457e+06\<close>, which reads back as 1234570.
\<close>

theorem round_trip_counterexample:
  \<open>parse read_double ''1234567'' = Some (Inr (Number (Decimal False 1234567 0)))
   \<and> json show_double (Number (Decimal False 1234567 0)) = ''1.23457e+06''
   \<and> parse read_double ''1.23457e+06'' = Some (Inr (Number (Decimal False 123457 1)))
   \<and> parse read_double (json show_double (Number (Decimal False 1234567 0)))
       \<noteq> Some (Inr (Number (Decimal False 1234567 0)))\<close>
proof -
  have r: "read_double ''1234567'' = Decimal False 1234567 0"
    "read_double ''1.23457e+06'' = Decimal False 123457 1"
    by (simp_all add: platform_defs)
  have s: "show_double (Decimal False 1234567 0) = ''1.23457e+06''"
    by (simp add: platform_defs)
  have j: "json show_double (Number (Decimal False 1234567 0)) = ''1.23457e+06''"
    using s by simp
  have 1: "parse read_double ''1234567'' = Some (Inr (Number (Decimal False 1234567 0)))"
    unfolding r [symmetric] by (simp add: run_defs eval_nat_numeral)
  have 2: "parse read_double ''1.23457e+06'' = Some (Inr (Number (Decimal False 123457 1)))"
    unfolding r [symmetric] by (simp add: run_defs eval_nat_numeral)
  have 3: "parse read_double (json show_double (Number (Decimal False 1234567 0)))
       \<noteq> Some (Inr (Number (Decimal False 1234567 0)))"
    unfolding j 2 by simp
  from 1 j 2 3 show ?thesis by (intro conjI)
qed

section \<open>Copies share their storage\<close>

lemma array_shared:
  assumes "value_get_array h v = Some (Inr a)"
  shows "value_update_array h (value_copy v) f = Some (Inr (h[value_ptr v := array_wrapper (f a)]))"
    and "value_update_array h v f = Some (Inr (h[value_ptr v := array_wrapper (f a)]))"
    and "value_get_array (h[value_ptr v := array_wrapper (f a)]) v = Some (Inr (f a))"
    and "value_get_array (h[value_ptr v := array_wrapper (f a)]) (value_copy v) = Some (Inr (f a))"
  using assms
  by (auto simp: value_get_array_def value_update_array_def value_copy_def
      split: if_splits value_t.splits)

lemma object_shared:
  assumes "value_get_object h v = Some (Inr m)"
  shows "value_update_object h (value_copy v) f = Some (Inr (h[value_ptr v := object_wrapper (f m)]))"
    and "value_update_object h v f = Some (Inr (h[value_ptr v := object_wrapper (f m)]))"
    and "value_get_object (h[value_ptr v := object_wrapper (f m)]) v = Some (Inr (f m))"
    and "value_get_object (h[value_ptr v := object_wrapper (f m)]) (value_copy v) = Some (Inr (f m))"
  using assms
  by (auto simp: value_get_object_def value_update_object_def value_copy_def
      split: if_splits value_t.splits)

text \<open>
  Claim C9.  A copy of a value holds the same pointer and the same tag as the value.
  For a value that holds an array, any write through the reference that \<^verbatim>\<open>get_array()\<close> of
  the copy returns is read through \<^verbatim>\<open>get_array()\<close> of the value, and any write through the
  value is read through the copy; and so for a value that holds an object, with
  \<^verbatim>\<open>get_object()\<close>.
\<close>

theorem copies_share_storage:
  "value_ptr (value_copy v) = value_ptr v \<and> value_type (value_copy v) = value_type v
   \<and> (value_get_array h v = Some (Inr a) \<longrightarrow>
        (\<exists>h'. value_update_array h (value_copy v) f = Some (Inr h')
              \<and> value_get_array h' v = Some (Inr (f a)))
      \<and> (\<exists>h'. value_update_array h v f = Some (Inr h')
              \<and> value_get_array h' (value_copy v) = Some (Inr (f a))))
   \<and> (value_get_object h v = Some (Inr m) \<longrightarrow>
        (\<exists>h'. value_update_object h (value_copy v) g = Some (Inr h')
              \<and> value_get_object h' v = Some (Inr (g m)))
      \<and> (\<exists>h'. value_update_object h v g = Some (Inr h')
              \<and> value_get_object h' (value_copy v) = Some (Inr (g m))))"
  using array_shared [of h v a f] object_shared [of h v m g]
  by (simp add: value_copy_def)

theorem copies_share_storage_witness:
  "value_from_array ([null_wrapper] :: decimal heap) [] =
     ([null_wrapper, array_wrapper []], \<lparr>value_ptr = 1, value_type = JSON_ARRAY\<rparr>)
   \<and> value_get_array ([null_wrapper, array_wrapper []] :: decimal heap)
       \<lparr>value_ptr = 1, value_type = JSON_ARRAY\<rparr> = Some (Inr [])
   \<and> value_update_array ([null_wrapper, array_wrapper []] :: decimal heap)
       (value_copy \<lparr>value_ptr = 1, value_type = JSON_ARRAY\<rparr>)
       (\<lambda>a. a @ [\<lparr>value_ptr = 0, value_type = JSON_NULL\<rparr>])
       = Some (Inr [null_wrapper, array_wrapper [\<lparr>value_ptr = 0, value_type = JSON_NULL\<rparr>]])
   \<and> value_get_array
       ([null_wrapper, array_wrapper [\<lparr>value_ptr = 0, value_type = JSON_NULL\<rparr>]] :: decimal heap)
       \<lparr>value_ptr = 1, value_type = JSON_ARRAY\<rparr>
       = Some (Inr [\<lparr>value_ptr = 0, value_type = JSON_NULL\<rparr>])
   \<and> value_get_object ([null_wrapper, object_wrapper []] :: decimal heap)
       \<lparr>value_ptr = 1, value_type = JSON_OBJECT\<rparr> = Some (Inr [])
   \<and> value_update_object ([null_wrapper, object_wrapper []] :: decimal heap)
       \<lparr>value_ptr = 1, value_type = JSON_OBJECT\<rparr>
       (\<lambda>m. map_assign m ''k'' \<lparr>value_ptr = 0, value_type = JSON_NULL\<rparr>)
       = Some (Inr [null_wrapper, object_wrapper [(''k'', \<lparr>value_ptr = 0, value_type = JSON_NULL\<rparr>)]])
   \<and> value_get_object
       ([null_wrapper, object_wrapper [(''k'', \<lparr>value_ptr = 0, value_type = JSON_NULL\<rparr>)]]
          :: decimal heap)
       (value_copy \<lparr>value_ptr = 1, value_type = JSON_OBJECT\<rparr>)
       = Some (Inr [(''k'', \<lparr>value_ptr = 0, value_type = JSON_NULL\<rparr>)])"
proof -
  let ?n = "\<lparr>value_ptr = 0, value_type = JSON_NULL\<rparr>"
  let ?va = "\<lparr>value_ptr = 1, value_type = JSON_ARRAY\<rparr>"
  let ?vo = "\<lparr>value_ptr = 1, value_type = JSON_OBJECT\<rparr>"
  let ?ha = "[null_wrapper, array_wrapper []] :: decimal heap"
  let ?ho = "[null_wrapper, object_wrapper []] :: decimal heap"
  have a: "value_get_array ?ha ?va = Some (Inr [])"
    by (simp add: value_get_array_def)
  have o: "value_get_object ?ho ?vo = Some (Inr [])"
    by (simp add: value_get_object_def)
  have c: "value_from_array ([null_wrapper] :: decimal heap) [] = (?ha, ?va)"
    by (simp add: value_from_array_def)
  from copies_share_storage [of ?va ?ha "[]" "\<lambda>a. a @ [?n]" "[]" "\<lambda>m. m"] a
  have 1: "\<exists>h'. value_update_array ?ha (value_copy ?va) (\<lambda>a. a @ [?n]) = Some (Inr h')
              \<and> value_get_array h' ?va = Some (Inr [?n])"
    by simp
  from copies_share_storage [of ?vo ?ho "[]" "\<lambda>a. a" "[]" "\<lambda>m. map_assign m ''k'' ?n"] o
  have 2: "\<exists>h'. value_update_object ?ho ?vo (\<lambda>m. map_assign m ''k'' ?n) = Some (Inr h')
              \<and> value_get_object h' (value_copy ?vo) = Some (Inr [(''k'', ?n)])"
    by simp
  from 1 2 a o c show ?thesis
    by (auto simp: value_update_array_def value_update_object_def value_copy_def)
qed

end
